theory Spec2Isabelle
  imports Main "HOL-Library.Word" "HOL-Library.Sublist"
begin

section \<open>The message handler of the English-tutor bot\<close>

text \<open>
  A shallow embedding of \<^verbatim>\<open>src/services/messageHandler.js\<close>, in the version that
  has the warm-up probe, the backoff schedule and \<^verbatim>\<open>sendSafe\<close> (the third text of that
  file), together with the retry helper of the first version.

  An \<^verbatim>\<open>async\<close> function is modelled as a finite tree of its suspension points: every
  \<^verbatim>\<open>await\<close> of an outside operation (a send, an HTTP request, a timer) is a node that
  waits for the outcome of that operation; the module's two globals are read and written
  between two suspensions. Such a tree is run against a world that decides every outcome.
\<close>

subsection \<open>Strings\<close>

text \<open>
  A JavaScript string is a sequence of UTF-16 code units; \<^verbatim>\<open>length\<close>, \<^verbatim>\<open>slice\<close>,
  \<^verbatim>\<open>includes\<close> and \<^verbatim>\<open>===\<close> all work on code units. \<open>js\<close> embeds an ASCII literal;
  the other code units of the source's literals are written as numbers (an emoji outside
  the basic plane is its surrogate pair).
\<close>

type_synonym jsstring = "16 word list"

definition js :: "string \<Rightarrow> jsstring" where
  "js s = map (\<lambda>c. word_of_nat (of_char c)) s"

text \<open>
  \<^verbatim>\<open>String.prototype.trim\<close> removes the WhiteSpace and LineTerminator code points of
  ECMAScript from both ends.
\<close>

definition is_space :: "16 word \<Rightarrow> bool" where
  "is_space c \<longleftrightarrow>
     c \<in> set [0x0009, 0x000A, 0x000B, 0x000C, 0x000D, 0x0020, 0x00A0, 0x1680,
              0x2028, 0x2029, 0x202F, 0x205F, 0x3000, 0xFEFF]
     \<or> (0x2000 \<le> c \<and> c \<le> 0x200A)"

definition trim :: "jsstring \<Rightarrow> jsstring" where
  "trim s = rev (dropWhile is_space (rev (dropWhile is_space s)))"

text \<open>
  \<^verbatim>\<open>String.prototype.toLowerCase\<close>, on the letters A to Z. The handler compares the
  lowered text only with \<^verbatim>\<open>#ajuda\<close>, \<^verbatim>\<open>#nivel\<close> and \<^verbatim>\<open>#resetar\<close>; the only code units
  outside ASCII that Unicode lowers to an ASCII letter are U+212A (to k) and U+0130 (to i
  followed by U+0307), and neither yields one of these three words, so every comparison
  of the handler has the same result as under the full Unicode mapping.
\<close>

definition lower_unit :: "16 word \<Rightarrow> 16 word" where
  "lower_unit c = (if 0x41 \<le> c \<and> c \<le> 0x5A then c + 0x20 else c)"

definition toLowerCase :: "jsstring \<Rightarrow> jsstring" where
  "toLowerCase s = map lower_unit s"

text \<open>\<^verbatim>\<open>hay.includes(needle)\<close>: the needle occurs as a contiguous run of code units.\<close>

definition includes_str :: "jsstring \<Rightarrow> jsstring \<Rightarrow> bool" where
  "includes_str hay needle \<longleftrightarrow> sublist needle hay"

text \<open>\<^verbatim>\<open>text.slice(a, b)\<close> for indices \<open>0 \<le> a\<close> and \<open>0 \<le> b\<close>.\<close>

definition slice :: "jsstring \<Rightarrow> nat \<Rightarrow> nat \<Rightarrow> jsstring" where
  "slice text a b = take (b - a) (drop a text)"

text \<open>
  \<^verbatim>\<open>a || b\<close> where \<open>a\<close> is a string or \<^verbatim>\<open>undefined\<close>: the empty string is falsy too.
\<close>

definition or_else :: "jsstring option \<Rightarrow> jsstring \<Rightarrow> jsstring" where
  "or_else a b = (case a of None \<Rightarrow> b | Some s \<Rightarrow> if s = [] then b else s)"

subsection \<open>The texts the handler sends\<close>

definition preparing_notice :: jsstring where
  "preparing_notice =
     [0x23F3] @ js '' Preparando o professor'' @ [0x2026]"

definition audio_notice :: jsstring where
  "audio_notice =
     [0xD83C, 0xDF99, 0xFE0F] @ js '' O recurso de '' @ [0x00E1] @ js ''udio est''
     @ [0x00E1]
     @ js '' temporariamente desativado. Use mensagens de texto por enquanto!''"

definition helpMessage :: jsstring where
  "helpMessage =
     [0xD83D, 0xDCDA] @ js '' *Ajuda do Bot de Ingl'' @ [0x00EA] @ js ''s*''
     @ [0x000A, 0x000A]
     @ js ''Comandos: *#ajuda*, *#nivel*, *#desafio*, *#quiz*, *#meta*, *#frase*, *#resetar*.''
     @ [0x000A] @ js ''Voc'' @ [0x00EA] @ js '' tamb'' @ [0x00E9]
     @ js ''m pode enviar frases para corre'' @ [0x00E7, 0x00E3] @ js ''o.''
     @ [0x000A, 0x000A] @ js ''Ex.: '' @ [0x0022] @ js ''I go school yesterday''
     @ [0x0022]"

definition levelMsg :: jsstring where
  "levelMsg =
     [0xD83D, 0xDCCA] @ js '' *Escolha seu n'' @ [0x00ED] @ js ''vel de ingl''
     @ [0x00EA] @ js ''s:*'' @ [0x000A, 0x000A] @ js ''1'' @ [0xFE0F, 0x20E3]
     @ js '' Iniciante'' @ [0x000A] @ js ''2'' @ [0xFE0F, 0x20E3] @ js '' B''
     @ [0x00E1] @ js ''sico'' @ [0x000A] @ js ''3'' @ [0xFE0F, 0x20E3]
     @ js '' Intermedi'' @ [0x00E1] @ js ''rio'' @ [0x000A] @ js ''4''
     @ [0xFE0F, 0x20E3] @ js '' Avan'' @ [0x00E7] @ js ''ado''"

definition level_prefix :: jsstring where
  "level_prefix =
     [0x2705] @ js '' N'' @ [0x00ED] @ js ''vel definido como *''"

definition reset_ok_notice :: jsstring where
  "reset_ok_notice =
     [0x267B, 0xFE0F] @ js '' Sua mem'' @ [0x00F3]
     @ js ''ria foi limpa com sucesso. Podemos recome'' @ [0x00E7] @ js ''ar!''"

definition reset_fail_notice :: jsstring where
  "reset_fail_notice =
     [0x26A0, 0xFE0F] @ js '' N'' @ [0x00E3] @ js ''o consegui resetar sua mem''
     @ [0x00F3] @ js ''ria. Tente novamente.''"

definition backend_fail_notice :: jsstring where
  "backend_fail_notice =
     [0x26A0, 0xFE0F]
     @ js '' Tive dificuldade para falar com o professor agora. Tenta de novo daqui a pouco.''"

definition fallback_reply :: jsstring where
  "fallback_reply =
     [0x274C] @ js '' Erro ao processar a resposta.''"

definition marker_correct :: jsstring where
  "marker_correct =
     [0x2705] @ js '' Muito bem!''"

definition marker_incorrect :: jsstring where
  "marker_incorrect =
     [0x274C] @ js '' Ops!''"

definition banner_correct :: jsstring where
  "banner_correct =
     [0xD83C, 0xDF89] @ js '' *Resposta Correta!*'' @ [0x000A, 0x000A]"

definition banner_incorrect :: jsstring where
  "banner_incorrect =
     [0xD83D, 0xDCCC] @ js '' *Resposta Incorreta*'' @ [0x000A, 0x000A]"

definition unexpected_notice :: jsstring where
  "unexpected_notice =
     [0x26A0, 0xFE0F] @ js '' Tive um erro inesperado aqui. Pode tentar de novo?''"

subsection \<open>Effects\<close>

text \<open>
  What an awaited operation can produce. A rejection carries the error; \<open>TypeError\<close> is
  the one error the handler's own code can raise, and \<open>Undefined\<close> is the value of
  \<^verbatim>\<open>lastErr\<close> before any attempt has failed.
\<close>

datatype error = Undefined | TypeError | Failure nat

text \<open>
  The body of an HTTP response, as far as the handler looks at it: \<^verbatim>\<open>data?.reply\<close> is
  absent (or \<^verbatim>\<open>data\<close> is null), is a string, or is a truthy value that is not a string
  and has no \<^verbatim>\<open>includes\<close> method (a number, \<^verbatim>\<open>true\<close>, a plain object).
\<close>

datatype data = NoReply | Reply jsstring | ReplyOther

text \<open>The two request bodies: \<^verbatim>\<open>{ phone }\<close> and \<^verbatim>\<open>{ user_message, level, phone }\<close>.\<close>

datatype payload = ResetReq jsstring | CorrectReq jsstring jsstring jsstring

datatype action =
    SendText jsstring jsstring
  | Post jsstring payload
  | GetHealth
  | Sleep nat

datatype outcome = Resolved data | Rejected error

type_synonym event = "action \<times> outcome"

text \<open>
  The module's globals: \<^verbatim>\<open>const userLevels = {}\<close> and \<^verbatim>\<open>let warmedUp = false\<close>. The
  object is used as a map from the identifier of a user to the name of a level (an
  identifier is an address of the messaging service, never the name of a property that
  every object inherits).
\<close>

record state =
  userLevels :: "jsstring \<rightharpoonup> jsstring"
  warmedUp :: bool

definition initial :: state where
  "initial = \<lparr> userLevels = Map.empty, warmedUp = False \<rparr>"

text \<open>
  An asynchronous computation. \<open>Await a k\<close> suspends on the operation \<open>a\<close> and goes on
  with \<open>k\<close> of its outcome; \<open>Read\<close> looks at the globals and \<open>Update\<close> assigns to them,
  both without suspending. \<open>Diverge\<close> stands for a loop that never ends (the tree itself
  is finite).
\<close>

datatype 'a proc =
    Return 'a
  | Throw error
  | Diverge
  | Await action "outcome \<Rightarrow> 'a proc"
  | Read "state \<Rightarrow> 'a proc"
  | Update "state \<Rightarrow> state" "'a proc"

primrec bind :: "'a proc \<Rightarrow> ('a \<Rightarrow> 'b proc) \<Rightarrow> 'b proc" where
  "bind (Return x) f = f x"
| "bind (Throw e) f = Throw e"
| "bind Diverge f = Diverge"
| "bind (Await a k) f = Await a (\<lambda>out. bind (k out) f)"
| "bind (Read k) f = Read (\<lambda>s. bind (k s) f)"
| "bind (Update g p) f = Update g (bind p f)"

text \<open>\<^verbatim>\<open>try { p } catch (e) { h e }\<close>\<close>

primrec try_catch :: "'a proc \<Rightarrow> (error \<Rightarrow> 'a proc) \<Rightarrow> 'a proc" where
  "try_catch (Return x) h = Return x"
| "try_catch (Throw e) h = h e"
| "try_catch Diverge h = Diverge"
| "try_catch (Await a k) h = Await a (\<lambda>out. try_catch (k out) h)"
| "try_catch (Read k) h = Read (\<lambda>s. try_catch (k s) h)"
| "try_catch (Update g p) h = Update g (try_catch p h)"

definition await :: "action \<Rightarrow> data proc" where
  "await a = Await a (\<lambda>out. case out of Resolved d \<Rightarrow> Return d | Rejected e \<Rightarrow> Throw e)"

definition sendText :: "jsstring \<Rightarrow> jsstring \<Rightarrow> unit proc" where
  "sendText to text = bind (await (SendText to text)) (\<lambda>_. Return ())"

definition sleep :: "nat \<Rightarrow> unit proc" where
  "sleep ms = bind (await (Sleep ms)) (\<lambda>_. Return ())"

subsection \<open>Retry with backoff\<close>

text \<open>
  \<^verbatim>\<open>delays[i]\<close> is \<^verbatim>\<open>undefined\<close> past the end of the array, and \<^verbatim>\<open>if (delays[i])\<close> is
  false for \<^verbatim>\<open>undefined\<close> and for 0: \<open>pause\<close> is the list of sleeps (none or one) that the
  loop body makes before its request.
\<close>

definition delays :: "nat list" where
  "delays = [0, 2000, 5000]"

definition health_delays :: "nat list" where
  "health_delays = [0, 1500, 3000]"

definition delay_at :: "nat list \<Rightarrow> nat \<Rightarrow> nat option" where
  "delay_at ds i = (if i < length ds then Some (ds ! i) else None)"

definition pause :: "nat list \<Rightarrow> nat \<Rightarrow> unit proc" where
  "pause ds i =
     (case delay_at ds i of
        None \<Rightarrow> Return ()
      | Some ms \<Rightarrow> if ms \<noteq> 0 then sleep ms else Return ())"

function postWithRetry_loop ::
  "jsstring \<Rightarrow> payload \<Rightarrow> nat \<Rightarrow> nat \<Rightarrow> error \<Rightarrow> data proc" where
  "postWithRetry_loop pathname d tries i lastErr =
     (if i < tries then
        try_catch
          (bind (pause delays i) (\<lambda>_.
           bind (await (Post pathname d)) (\<lambda>resp.
           Return resp)))
          (\<lambda>err. postWithRetry_loop pathname d tries (i + 1) err)
      else Throw lastErr)"
  by pat_completeness auto
termination
  by (relation "measure (\<lambda>(pathname, d, tries, i, lastErr). tries - i)") auto

definition postWithRetry :: "jsstring \<Rightarrow> payload \<Rightarrow> nat \<Rightarrow> data proc" where
  "postWithRetry pathname d tries = postWithRetry_loop pathname d tries 0 Undefined"

text \<open>
  The first version of the file has the same function with a default of two tries and one
  fixed pause: after a failed attempt that is not the last it sleeps 800 ms.
\<close>

function postWithRetry_v1_loop ::
  "jsstring \<Rightarrow> payload \<Rightarrow> nat \<Rightarrow> nat \<Rightarrow> error \<Rightarrow> data proc" where
  "postWithRetry_v1_loop path d tries i lastErr =
     (if i < tries then
        try_catch
          (bind (await (Post path d)) (\<lambda>resp. Return resp))
          (\<lambda>err. bind (if i < tries - 1 then sleep 800 else Return ()) (\<lambda>_.
                 postWithRetry_v1_loop path d tries (i + 1) err))
      else Throw lastErr)"
  by pat_completeness auto
termination
  by (relation "measure (\<lambda>(path, d, tries, i, lastErr). tries - i)") auto

definition postWithRetry_v1 :: "jsstring \<Rightarrow> payload \<Rightarrow> nat \<Rightarrow> data proc" where
  "postWithRetry_v1 path d tries = postWithRetry_v1_loop path d tries 0 Undefined"

function getHealthWithRetry_loop :: "nat \<Rightarrow> nat \<Rightarrow> error \<Rightarrow> data proc" where
  "getHealthWithRetry_loop tries i lastErr =
     (if i < tries then
        try_catch
          (bind (pause health_delays i) (\<lambda>_.
           bind (await GetHealth) (\<lambda>d.
           Return d)))
          (\<lambda>err. getHealthWithRetry_loop tries (i + 1) err)
      else Throw lastErr)"
  by pat_completeness auto
termination
  by (relation "measure (\<lambda>(tries, i, lastErr). tries - i)") auto

definition getHealthWithRetry :: "nat \<Rightarrow> data proc" where
  "getHealthWithRetry tries = getHealthWithRetry_loop tries 0 Undefined"

subsection \<open>Sending a long reply in parts\<close>

text \<open>
  With \<^verbatim>\<open>maxLen = 0\<close> and a text that is not empty the loop of the source never advances:
  it sends the empty slice again and again. That branch is cut at \<open>Diverge\<close>; the handler
  only ever passes the default 3000.
\<close>

function sendSafe_loop :: "jsstring \<Rightarrow> jsstring \<Rightarrow> nat \<Rightarrow> nat \<Rightarrow> unit proc" where
  "sendSafe_loop to text maxLen i =
     (if i < length text then
        (if maxLen = 0 then Diverge
         else bind (sendText to (slice text i (i + maxLen))) (\<lambda>_.
              sendSafe_loop to text maxLen (i + maxLen)))
      else Return ())"
  by pat_completeness auto
termination
  by (relation "measure (\<lambda>(to, text, maxLen, i). length text - i)") auto

definition sendSafe :: "jsstring \<Rightarrow> jsstring \<Rightarrow> nat \<Rightarrow> unit proc" where
  "sendSafe to text maxLen =
     (if length text \<le> maxLen then sendText to text
      else sendSafe_loop to text maxLen 0)"

subsection \<open>The handler\<close>

text \<open>
  The fields of an inbound message that the handler reads: \<^verbatim>\<open>isGroupMsg\<close>, \<^verbatim>\<open>from\<close>,
  \<^verbatim>\<open>sender?.id\<close>, \<^verbatim>\<open>body\<close> and \<^verbatim>\<open>type\<close>; a string field that is missing is \<open>None\<close>.
\<close>

record message =
  isGroupMsg :: bool
  sender_from :: "jsstring option"
  sender_id :: "jsstring option"
  body :: "jsstring option"
  mtype :: jsstring

definition levelMap :: "jsstring \<rightharpoonup> jsstring" where
  "levelMap = map_of
     [(js ''1'', js ''beginner''), (js ''2'', js ''basic''),
      (js ''3'', js ''intermediate''), (js ''4'', js ''advanced'')]"

text \<open>The template \<^verbatim>\<open>`... *${levelMap[body]}*.`\<close>\<close>

definition level_confirmation :: "jsstring option \<Rightarrow> jsstring" where
  "level_confirmation l =
     level_prefix @ (case l of None \<Rightarrow> js ''undefined'' | Some name \<Rightarrow> name) @ js ''*.''"

text \<open>
  \<^verbatim>\<open>data?.reply || fallback\<close>; \<open>None\<close> is a value on which \<^verbatim>\<open>.includes\<close> is not a function.
\<close>

definition botReply_of :: "data \<Rightarrow> jsstring option" where
  "botReply_of d =
     (case d of
        NoReply \<Rightarrow> Some fallback_reply
      | Reply r \<Rightarrow> Some (if r = [] then fallback_reply else r)
      | ReplyOther \<Rightarrow> None)"

text \<open>The block \<^verbatim>\<open>if (!warmedUp) { warmedUp = true; try { ... } catch (e) { ... } }\<close>\<close>

definition warmUp :: "jsstring \<Rightarrow> unit proc" where
  "warmUp userPhone =
     Read (\<lambda>s.
       if \<not> warmedUp s then
         Update (\<lambda>s. s\<lparr>warmedUp := True\<rparr>)
           (try_catch
              (bind (sendText userPhone preparing_notice) (\<lambda>_.
               bind (getHealthWithRetry 3) (\<lambda>ok.
               Return ())))
              (\<lambda>e. Return ()))
       else Return ())"

text \<open>
  The end of the \<^verbatim>\<open>try\<close> block, once \<^verbatim>\<open>/correct\<close> has answered with \<open>d\<close>: the reply
  is looked at for the two markers and sent on. \<^verbatim>\<open>botReply.includes\<close> raises a TypeError
  on a reply that is not a string.
\<close>

definition forward_reply :: "jsstring \<Rightarrow> data \<Rightarrow> unit proc" where
  "forward_reply userPhone d =
     (case botReply_of d of
        None \<Rightarrow> Throw TypeError
      | Some botReply \<Rightarrow>
          if includes_str botReply marker_correct then
            sendSafe userPhone (banner_correct @ botReply) 3000
          else if includes_str botReply marker_incorrect then
            sendSafe userPhone (banner_incorrect @ botReply) 3000
          else sendSafe userPhone botReply 3000)"

text \<open>The \<^verbatim>\<open>try\<close> block from the audio check on.\<close>

definition dispatch :: "message \<Rightarrow> jsstring \<Rightarrow> jsstring \<Rightarrow> unit proc" where
  "dispatch m userPhone body' =
     (if mtype m = js ''ptt'' \<or> mtype m = js ''audio'' then
        sendText userPhone audio_notice
      else
        let textLower = toLowerCase body' in
        if textLower = js ''#ajuda'' then sendText userPhone helpMessage
        else if textLower = js ''#nivel'' then sendText userPhone levelMsg
        else if body' \<in> set [js ''1'', js ''2'', js ''3'', js ''4''] then
          Update (\<lambda>s. s\<lparr>userLevels := (userLevels s)(userPhone := levelMap body')\<rparr>)
            (sendText userPhone (level_confirmation (levelMap body')))
        else if textLower = js ''#resetar'' then
          try_catch
            (bind (postWithRetry (js ''/resetar'') (ResetReq userPhone) 3) (\<lambda>_.
             sendText userPhone reset_ok_notice))
            (\<lambda>error. sendText userPhone reset_fail_notice)
        else
          Read (\<lambda>s.
            let payload = CorrectReq body' (or_else (userLevels s userPhone) (js ''basic''))
                            userPhone in
            bind (try_catch
                    (bind (postWithRetry (js ''/correct'') payload 3) (\<lambda>d. Return (Some d)))
                    (\<lambda>err. bind (sendText userPhone backend_fail_notice) (\<lambda>_. Return None)))
              (\<lambda>got.
                 case got of
                   None \<Rightarrow> Return ()
                 | Some d \<Rightarrow> forward_reply userPhone d)))"

text \<open>
  \<^verbatim>\<open>message.from || message.sender?.id || 'unknown'\<close> and \<^verbatim>\<open>(message.body || '').trim()\<close>
\<close>

definition userPhone_of :: "message \<Rightarrow> jsstring" where
  "userPhone_of m = or_else (sender_from m) (or_else (sender_id m) (js ''unknown''))"

definition body_of :: "message \<Rightarrow> jsstring" where
  "body_of m = trim (or_else (body m) [])"

definition handleMessage_try :: "message \<Rightarrow> unit proc" where
  "handleMessage_try m =
     (if isGroupMsg m then Return ()
      else
        let userPhone = userPhone_of m;
            body' = body_of m
        in if body' = [] then Return ()
           else bind (warmUp userPhone) (\<lambda>_. dispatch m userPhone body'))"

definition handleMessage :: "message \<Rightarrow> unit proc" where
  "handleMessage m =
     try_catch (handleMessage_try m)
       (\<lambda>e. let userPhone = or_else (sender_from m) (js ''unknown'') in
            try_catch (sendText userPhone unexpected_notice) (\<lambda>_. Return ()))"

subsection \<open>Running a computation\<close>

text \<open>
  A world fixes the outcome of the n-th send, the n-th POST and the n-th health GET of a
  run; a timer always fires. Every sequence of outcomes a run can meet is some world.
  Every operation settles: the HTTP requests have a timeout, and a send that never settles
  is outside the model.
\<close>

record world =
  send_out :: "nat \<Rightarrow> outcome"
  post_out :: "nat \<Rightarrow> outcome"
  get_out :: "nat \<Rightarrow> outcome"

datatype 'a result = Returned 'a | Thrown error | Diverged

fun is_send :: "action \<Rightarrow> bool" where
  "is_send (SendText to text) = True"
| "is_send a = False"

fun is_post :: "action \<Rightarrow> bool" where
  "is_post (Post pathname d) = True"
| "is_post a = False"

fun is_get :: "action \<Rightarrow> bool" where
  "is_get GetHealth = True"
| "is_get a = False"

definition count :: "(action \<Rightarrow> bool) \<Rightarrow> event list \<Rightarrow> nat" where
  "count P tr = length (filter (\<lambda>ev. P (fst ev)) tr)"

fun respond :: "world \<Rightarrow> event list \<Rightarrow> action \<Rightarrow> outcome" where
  "respond w tr (SendText to text) = send_out w (count is_send tr)"
| "respond w tr (Post pathname d) = post_out w (count is_post tr)"
| "respond w tr GetHealth = get_out w (count is_get tr)"
| "respond w tr (Sleep ms) = Resolved NoReply"

text \<open>
  \<open>exec p w s tr\<close> runs \<open>p\<close> to its end from the globals \<open>s\<close>, after the events \<open>tr\<close>:
  it gives the globals and the events at the end, and how \<open>p\<close> ended.
\<close>

primrec exec ::
  "'a proc \<Rightarrow> world \<Rightarrow> state \<Rightarrow> event list \<Rightarrow> state \<times> event list \<times> 'a result" where
  "exec (Return x) w s tr = (s, tr, Returned x)"
| "exec (Throw e) w s tr = (s, tr, Thrown e)"
| "exec Diverge w s tr = (s, tr, Diverged)"
| "exec (Await a k) w s tr = exec (k (respond w tr a)) w s (tr @ [(a, respond w tr a)])"
| "exec (Read k) w s tr = exec (k s) w s tr"
| "exec (Update g p) w s tr = exec p w (g s) tr"

text \<open>Handling the messages of a list one after the other.\<close>

fun run :: "message list \<Rightarrow> world \<Rightarrow> state \<Rightarrow> event list \<Rightarrow> state \<times> event list" where
  "run [] w s tr = (s, tr)"
| "run (m # ms) w s tr =
     (case exec (handleMessage m) w s tr of (s1, tr1, r) \<Rightarrow> run ms w s1 tr1)"

text \<open>The same run, as the list of the events that each message added.\<close>

fun run_events :: "message list \<Rightarrow> world \<Rightarrow> state \<Rightarrow> event list \<Rightarrow> event list list" where
  "run_events [] w s tr = []"
| "run_events (m # ms) w s tr =
     (case exec (handleMessage m) w s tr of
        (s1, tr1, r) \<Rightarrow> drop (length tr) tr1 # run_events ms w s1 tr1)"

text \<open>
  The first suspension: \<open>settle p s\<close> runs \<open>p\<close> from the globals \<open>s\<close> as far as it goes
  without waiting, and gives the globals at that point and what is left of \<open>p\<close>.
\<close>

primrec settle :: "'a proc \<Rightarrow> state \<Rightarrow> state \<times> 'a proc" where
  "settle (Return x) s = (s, Return x)"
| "settle (Throw e) s = (s, Throw e)"
| "settle Diverge s = (s, Diverge)"
| "settle (Await a k) s = (s, Await a k)"
| "settle (Read k) s = settle (k s) s"
| "settle (Update g p) s = settle p (g s)"

text \<open>
  Handlers that overlap. The messaging layer calls \<open>handleMessage\<close> for every message as
  it arrives, so the handler of one message can be suspended while that of another runs.
  A system is the globals, the handlers started so far (each one suspended at an
  \<open>Await\<close>, or finished) and the operations started so far, each with the number of
  the handler that waits for it. A step is the arrival of a message, which runs a new
  handler up to its first suspension, or the outcome of the operation that a suspended
  handler waits for, which runs that handler up to its next suspension. A timer does not
  fail.
\<close>

record system =
  globals :: state
  tasks :: "unit proc list"
  issued :: "(nat \<times> action) list"

datatype step = Deliver message | Complete nat outcome

definition waiting_for :: "nat \<Rightarrow> unit proc \<Rightarrow> (nat \<times> action) list" where
  "waiting_for i p = (case p of Await a k \<Rightarrow> [(i, a)] | _ \<Rightarrow> [])"

definition possible :: "action \<Rightarrow> outcome \<Rightarrow> bool" where
  "possible a out \<longleftrightarrow> (case a of Sleep ms \<Rightarrow> out = Resolved NoReply | _ \<Rightarrow> True)"

definition resume :: "system \<Rightarrow> nat \<Rightarrow> unit proc \<Rightarrow> system" where
  "resume sys i p =
     (case settle p (globals sys) of
        (s', p') \<Rightarrow>
          \<lparr> globals = s',
            tasks = (if i < length (tasks sys) then (tasks sys)[i := p'] else tasks sys @ [p']),
            issued = issued sys @ waiting_for i p' \<rparr>)"

fun step_system :: "system \<Rightarrow> step \<Rightarrow> system" where
  "step_system sys (Deliver m) = resume sys (length (tasks sys)) (handleMessage m)"
| "step_system sys (Complete i out) =
     (if i < length (tasks sys) then
        (case tasks sys ! i of
           Await a k \<Rightarrow> if possible a out then resume sys i (k out) else sys
         | _ \<Rightarrow> sys)
      else sys)"

definition interleaved :: "step list \<Rightarrow> system" where
  "interleaved steps = foldl step_system \<lparr> globals = initial, tasks = [], issued = [] \<rparr> steps"

subsection \<open>Notions used in the properties\<close>

text \<open>Some event of the list is a health request.\<close>

definition probes :: "event list \<Rightarrow> bool" where
  "probes evs \<longleftrightarrow> list_ex (\<lambda>ev. is_get (fst ev)) evs"

text \<open>A world in which no send is rejected.\<close>

definition sends_ok :: "world \<Rightarrow> bool" where
  "sends_ok w \<longleftrightarrow> (\<forall>n. \<exists>d. send_out w n = Resolved d)"

text \<open>
  The time slept before each POST of a list of actions: the sleeps since the request
  before it, added up.
\<close>

fun attempt_delays :: "nat \<Rightarrow> action list \<Rightarrow> nat list" where
  "attempt_delays acc [] = []"
| "attempt_delays acc (Sleep ms # as) = attempt_delays (acc + ms) as"
| "attempt_delays acc (Post pathname d # as) = acc # attempt_delays 0 as"
| "attempt_delays acc (a # as) = attempt_delays acc as"

definition pause_events :: "nat list \<Rightarrow> nat \<Rightarrow> event list" where
  "pause_events ds i =
     (case delay_at ds i of
        None \<Rightarrow> []
      | Some ms \<Rightarrow> if ms \<noteq> 0 then [(Sleep ms, Resolved NoReply)] else [])"

definition delay_before :: "nat \<Rightarrow> nat" where
  "delay_before i = (case delay_at delays i of None \<Rightarrow> 0 | Some ms \<Rightarrow> ms)"

fun is_sleep :: "action \<Rightarrow> bool" where
  "is_sleep (Sleep ms) = True"
| "is_sleep a = False"

text \<open>
  \<open>within A U p\<close>: on every branch of \<open>p\<close>, every operation waited for satisfies \<open>A\<close>
  and every assignment to the globals satisfies \<open>U\<close>.
\<close>

primrec within :: "(action \<Rightarrow> bool) \<Rightarrow> ((state \<Rightarrow> state) \<Rightarrow> bool) \<Rightarrow> 'a proc \<Rightarrow> bool" where
  "within A U (Return x) \<longleftrightarrow> True"
| "within A U (Throw e) \<longleftrightarrow> True"
| "within A U Diverge \<longleftrightarrow> True"
| "within A U (Await a k) \<longleftrightarrow> A a \<and> (\<forall>out. within A U (k out))"
| "within A U (Read k) \<longleftrightarrow> (\<forall>s. within A U (k s))"
| "within A U (Update g p) \<longleftrightarrow> U g \<and> within A U p"

text \<open>Some branch of \<open>p\<close> ends with an exception; some branch of \<open>p\<close> never ends.\<close>

primrec may_throw :: "'a proc \<Rightarrow> bool" where
  "may_throw (Return x) \<longleftrightarrow> False"
| "may_throw (Throw e) \<longleftrightarrow> True"
| "may_throw Diverge \<longleftrightarrow> False"
| "may_throw (Await a k) \<longleftrightarrow> (\<exists>out. may_throw (k out))"
| "may_throw (Read k) \<longleftrightarrow> (\<exists>s. may_throw (k s))"
| "may_throw (Update g p) \<longleftrightarrow> may_throw p"

primrec may_diverge :: "'a proc \<Rightarrow> bool" where
  "may_diverge (Return x) \<longleftrightarrow> False"
| "may_diverge (Throw e) \<longleftrightarrow> False"
| "may_diverge Diverge \<longleftrightarrow> True"
| "may_diverge (Await a k) \<longleftrightarrow> (\<exists>out. may_diverge (k out))"
| "may_diverge (Read k) \<longleftrightarrow> (\<exists>s. may_diverge (k s))"
| "may_diverge (Update g p) \<longleftrightarrow> may_diverge p"

text \<open>
  A computation that never unsets the warm-up flag, and one that moreover never asks for
  the health of the backend.
\<close>

definition tame :: "'a proc \<Rightarrow> bool" where
  "tame p \<longleftrightarrow> within (\<lambda>a. True) (\<lambda>g. \<forall>s. warmedUp s \<longrightarrow> warmedUp (g s)) p"

definition quiet :: "'a proc \<Rightarrow> bool" where
  "quiet p \<longleftrightarrow> within (\<lambda>a. \<not> is_get a) (\<lambda>g. \<forall>s. warmedUp s \<longrightarrow> warmedUp (g s)) p"

text \<open>
  The invariant of overlapping handlers: only handler \<open>t\<close> can ask for the health of the
  backend, and as long as the flag is unset no handler can.
\<close>

definition only_prober :: "nat \<Rightarrow> system \<Rightarrow> bool" where
  "only_prober t sys \<longleftrightarrow>
     (\<forall>i < length (tasks sys). tame (tasks sys ! i) \<and> (i \<noteq> t \<longrightarrow> quiet (tasks sys ! i)))
   \<and> (\<forall>x \<in> set (issued sys). is_get (snd x) \<longrightarrow> fst x = t)
   \<and> (\<not> warmedUp (globals sys) \<longrightarrow>
        (\<forall>i < length (tasks sys). quiet (tasks sys ! i))
      \<and> (\<forall>x \<in> set (issued sys). \<not> is_get (snd x)))"

text \<open>The text that \<open>forward_reply\<close> hands to \<open>sendSafe\<close> for the reply \<open>botReply\<close>.\<close>

definition annotate :: "jsstring \<Rightarrow> jsstring" where
  "annotate botReply =
     (if includes_str botReply marker_correct then banner_correct @ botReply
      else if includes_str botReply marker_incorrect then banner_incorrect @ botReply
      else botReply)"

text \<open>The messages that pass the two filters at the head of the handler.\<close>

definition accepted :: "message \<Rightarrow> bool" where
  "accepted m \<longleftrightarrow> \<not> isGroupMsg m \<and> body_of m \<noteq> []"

definition is_audio :: "message \<Rightarrow> bool" where
  "is_audio m \<longleftrightarrow> mtype m = js ''ptt'' \<or> mtype m = js ''audio''"

text \<open>The messages that reach the level branch, and those that reach \<^verbatim>\<open>/correct\<close>.\<close>

definition level_choice :: "message \<Rightarrow> bool" where
  "level_choice m \<longleftrightarrow>
     accepted m \<and> \<not> is_audio m \<and> body_of m \<in> set [js ''1'', js ''2'', js ''3'', js ''4'']"

definition default_path :: "message \<Rightarrow> bool" where
  "default_path m \<longleftrightarrow>
     accepted m \<and> \<not> is_audio m
     \<and> toLowerCase (body_of m) \<noteq> js ''#ajuda''
     \<and> toLowerCase (body_of m) \<noteq> js ''#nivel''
     \<and> body_of m \<notin> set [js ''1'', js ''2'', js ''3'', js ''4'']
     \<and> toLowerCase (body_of m) \<noteq> js ''#resetar''"

definition reset_command :: "message \<Rightarrow> bool" where
  "reset_command m \<longleftrightarrow>
     accepted m \<and> \<not> is_audio m \<and> toLowerCase (body_of m) = js ''#resetar''"

text \<open>The texts that the handler sends on its own account when no request has failed.\<close>

definition fixed_texts :: "jsstring list" where
  "fixed_texts =
     [preparing_notice, audio_notice, helpMessage, levelMsg, reset_ok_notice, fallback_reply,
      level_confirmation (Some (js ''beginner'')), level_confirmation (Some (js ''basic'')),
      level_confirmation (Some (js ''intermediate'')), level_confirmation (Some (js ''advanced''))]"

text \<open>
  What a warm-up adds to the events: the notice, then the requests and sleeps of the
  health probe (no request at all when the notice was rejected).
\<close>

definition warmup_trace :: "jsstring \<Rightarrow> event list \<Rightarrow> bool" where
  "warmup_trace userPhone evs \<longleftrightarrow>
     (case evs of
        [] \<Rightarrow> False
      | ev # rest \<Rightarrow>
          fst ev = SendText userPhone preparing_notice
        \<and> list_all (\<lambda>ev. is_get (fst ev) \<or> is_sleep (fst ev)) rest
        \<and> count is_get rest \<le> 3)"

text \<open>
  Overlapping handlers and the level of user \<open>u\<close>. A handler keeps the level of \<open>u\<close> when
  none of its assignments changes \<open>userLevels[u]\<close> or unsets the flag; the level of \<open>u\<close> is
  settled in a system when the flag is set and every handler in flight keeps it, so that no
  choice of \<open>u\<close> is still waiting to be stored.
\<close>

definition keeps_level :: "jsstring \<Rightarrow> 'a proc \<Rightarrow> bool" where
  "keeps_level u p \<longleftrightarrow>
     within (\<lambda>a. True)
       (\<lambda>g. \<forall>s. (warmedUp s \<longrightarrow> warmedUp (g s)) \<and> userLevels (g s) u = userLevels s u) p"

definition level_settled :: "jsstring \<Rightarrow> system \<Rightarrow> bool" where
  "level_settled u sys \<longleftrightarrow>
     warmedUp (globals sys) \<and> (\<forall>i < length (tasks sys). keeps_level u (tasks sys ! i))"

text \<open>The step is the arrival of a level choice of user \<open>u\<close>.\<close>

definition delivers_choice :: "jsstring \<Rightarrow> step \<Rightarrow> bool" where
  "delivers_choice u st \<longleftrightarrow>
     (case st of Deliver m \<Rightarrow> level_choice m \<and> userPhone_of m = u | Complete i out \<Rightarrow> False)"

subsection \<open>Concrete worlds and messages\<close>

definition world_ok :: world where
  "world_ok =
     \<lparr> send_out = (\<lambda>n. Resolved NoReply),
       post_out = (\<lambda>n. Resolved NoReply),
       get_out = (\<lambda>n. Resolved NoReply) \<rparr>"

text \<open>The backend rejects the first POST and accepts the second.\<close>

definition world_second :: world where
  "world_second =
     \<lparr> send_out = (\<lambda>n. Resolved NoReply),
       post_out = (\<lambda>n. if n < 1 then Rejected (Failure n) else Resolved (Reply (js ''ok''))),
       get_out = (\<lambda>n. Resolved NoReply) \<rparr>"

text \<open>The backend rejects three POSTs and accepts the fourth.\<close>

definition world_fourth :: world where
  "world_fourth =
     \<lparr> send_out = (\<lambda>n. Resolved NoReply),
       post_out = (\<lambda>n. if n < 3 then Rejected (Failure n) else Resolved (Reply (js ''ok''))),
       get_out = (\<lambda>n. Resolved NoReply) \<rparr>"

text \<open>Every send is rejected.\<close>

definition world_deaf :: world where
  "world_deaf =
     \<lparr> send_out = (\<lambda>n. Rejected (Failure n)),
       post_out = (\<lambda>n. Resolved NoReply),
       get_out = (\<lambda>n. Resolved NoReply) \<rparr>"

text \<open>Every POST is rejected.\<close>

definition world_down :: world where
  "world_down =
     \<lparr> send_out = (\<lambda>n. Resolved NoReply),
       post_out = (\<lambda>n. Rejected (Failure n)),
       get_out = (\<lambda>n. Rejected (Failure n)) \<rparr>"

definition warmed :: state where
  "warmed = \<lparr> userLevels = Map.empty, warmedUp = True \<rparr>"

definition user1 :: jsstring where
  "user1 = js ''5511999990000@c.us''"

definition chat :: "jsstring \<Rightarrow> message" where
  "chat b =
     \<lparr> isGroupMsg = False, sender_from = Some user1, sender_id = None,
       body = Some b, mtype = js ''chat'' \<rparr>"

definition group_chat :: "jsstring \<Rightarrow> message" where
  "group_chat b =
     \<lparr> isGroupMsg = True, sender_from = Some user1, sender_id = None,
       body = Some b, mtype = js ''chat'' \<rparr>"

text \<open>A voice note without a caption, and an audio message that carries a text.\<close>

definition voice_note :: message where
  "voice_note =
     \<lparr> isGroupMsg = False, sender_from = Some user1, sender_id = None,
       body = None, mtype = js ''ptt'' \<rparr>"

definition audio_with :: "jsstring \<Rightarrow> message" where
  "audio_with b =
     \<lparr> isGroupMsg = False, sender_from = Some user1, sender_id = None,
       body = Some b, mtype = js ''audio'' \<rparr>"

section \<open>Properties\<close>

subsection \<open>Running the building blocks\<close>

declare postWithRetry_loop.simps [simp del]
declare postWithRetry_v1_loop.simps [simp del]
declare getHealthWithRetry_loop.simps [simp del]
declare sendSafe_loop.simps [simp del]

lemma exec_bind:
  "exec (bind p f) w s tr =
     (case exec p w s tr of
        (s1, tr1, Returned x) \<Rightarrow> exec (f x) w s1 tr1
      | (s1, tr1, Thrown e) \<Rightarrow> (s1, tr1, Thrown e)
      | (s1, tr1, Diverged) \<Rightarrow> (s1, tr1, Diverged))"
  by (induction p arbitrary: s tr) auto

lemma exec_try_catch:
  "exec (try_catch p h) w s tr =
     (case exec p w s tr of
        (s1, tr1, Returned x) \<Rightarrow> (s1, tr1, Returned x)
      | (s1, tr1, Thrown e) \<Rightarrow> exec (h e) w s1 tr1
      | (s1, tr1, Diverged) \<Rightarrow> (s1, tr1, Diverged))"
  by (induction p arbitrary: s tr) auto

lemma exec_await:
  "exec (await a) w s tr =
     (s, tr @ [(a, respond w tr a)],
      case respond w tr a of Resolved d \<Rightarrow> Returned d | Rejected e \<Rightarrow> Thrown e)"
  by (simp add: await_def split: outcome.split)

lemma exec_sendText:
  "exec (sendText rcpt msg) w s tr =
     (s, tr @ [(SendText rcpt msg, send_out w (count is_send tr))],
      case send_out w (count is_send tr) of
        Resolved d \<Rightarrow> Returned ()
      | Rejected e \<Rightarrow> Thrown e)"
  by (simp add: sendText_def exec_bind exec_await split: outcome.split)

lemma exec_sendText_ok:
  assumes "sends_ok w"
  shows "exec (sendText rcpt msg) w s tr =
           (s, tr @ [(SendText rcpt msg, send_out w (count is_send tr))], Returned ())"
proof -
  obtain d where "send_out w (count is_send tr) = Resolved d"
    using assms unfolding sends_ok_def by blast
  then show ?thesis
    by (simp add: exec_sendText)
qed

lemma exec_sleep:
  "exec (sleep ms) w s tr = (s, tr @ [(Sleep ms, Resolved NoReply)], Returned ())"
  by (simp add: sleep_def exec_bind exec_await)

lemma exec_pause:
  "exec (pause ds i) w s tr = (s, tr @ pause_events ds i, Returned ())"
  by (simp add: pause_def pause_events_def exec_sleep split: option.split)

lemma count_append [simp]: "count P (xs @ ys) = count P xs + count P ys"
  by (simp add: count_def)

lemma count_Nil [simp]: "count P [] = 0"
  by (simp add: count_def)

lemma count_Cons [simp]: "count P (ev # tr) = (if P (fst ev) then 1 else 0) + count P tr"
  by (simp add: count_def)

lemma count_pause_events [simp]:
  "count is_post (pause_events ds i) = 0"
  "count is_get (pause_events ds i) = 0"
  "count is_send (pause_events ds i) = 0"
  by (simp_all add: pause_events_def split: option.split)

text \<open>One turn of each retry loop.\<close>

lemma postWithRetry_loop_step:
  "exec (postWithRetry_loop pathname d tries i lastErr) w s tr =
     (if i < tries then
        (case post_out w (count is_post tr) of
           Resolved r \<Rightarrow>
             (s, tr @ pause_events delays i @ [(Post pathname d, Resolved r)], Returned r)
         | Rejected e \<Rightarrow>
             exec (postWithRetry_loop pathname d tries (i + 1) e) w s
               (tr @ pause_events delays i @ [(Post pathname d, Rejected e)]))
      else (s, tr, Thrown lastErr))"
  by (subst postWithRetry_loop.simps)
     (simp add: exec_try_catch exec_bind exec_pause exec_await split: outcome.split)

lemma getHealthWithRetry_loop_step:
  "exec (getHealthWithRetry_loop tries i lastErr) w s tr =
     (if i < tries then
        (case get_out w (count is_get tr) of
           Resolved r \<Rightarrow>
             (s, tr @ pause_events health_delays i @ [(GetHealth, Resolved r)], Returned r)
         | Rejected e \<Rightarrow>
             exec (getHealthWithRetry_loop tries (i + 1) e) w s
               (tr @ pause_events health_delays i @ [(GetHealth, Rejected e)]))
      else (s, tr, Thrown lastErr))"
  by (subst getHealthWithRetry_loop.simps)
     (simp add: exec_try_catch exec_bind exec_pause exec_await split: outcome.split)

subsection \<open>Splitting a long reply\<close>

lemma ceil_step:
  fixes C n :: nat
  assumes "0 < C" and "0 < n"
  shows "(n + C - 1) div C = Suc ((n - C + C - 1) div C)"
proof (cases "C \<le> n")
  case True
  define m where "m = n - C + C - 1"
  have "n + C - 1 = m + C"
    using True assms by (simp add: m_def)
  moreover have "(m + C) div C = Suc (m div C)"
    using assms by (simp add: div_add_self2)
  ultimately show ?thesis
    by (simp add: m_def)
next
  case False
  define m where "m = n - 1"
  have "(n - C + C - 1) div C = 0"
    using False assms by simp
  moreover have "n + C - 1 = m + C" and "m < C"
    using False assms by (simp_all add: m_def)
  then have "(n + C - 1) div C = Suc 0"
    using assms by (simp add: div_add_self2)
  ultimately show ?thesis by simp
qed

lemma sendSafe_loop_chunks:
  assumes "0 < C" and "sends_ok w"
  shows "\<exists>new chunks.
           exec (sendSafe_loop rcpt msg C i) w s tr = (s, tr @ new, Returned ())
         \<and> map fst new = map (SendText rcpt) chunks
         \<and> concat chunks = drop i msg
         \<and> (\<forall>c \<in> set chunks. c \<noteq> [] \<and> length c \<le> C)
         \<and> length chunks = (length msg - i + C - 1) div C"
  using assms
proof (induction rcpt msg C i arbitrary: tr rule: sendSafe_loop.induct)
  case (1 rcpt msg maxLen i)
  show ?case
  proof (cases "i < length msg")
    case False
    then have "exec (sendSafe_loop rcpt msg maxLen i) w s tr = (s, tr @ [], Returned ())"
      by (simp add: sendSafe_loop.simps)
    moreover have "(length msg - i + maxLen - 1) div maxLen = 0"
      using False "1.prems" by simp
    ultimately show ?thesis using False
      by (intro exI[of _ "[]"]) simp
  next
    case True
    let ?c = "slice msg i (i + maxLen)"
    let ?ev = "(SendText rcpt ?c, send_out w (count is_send tr))"
    from "1.IH"[of "tr @ [?ev]"] True "1.prems"
    obtain new chunks where
      ex: "exec (sendSafe_loop rcpt msg maxLen (i + maxLen)) w s (tr @ [?ev])
             = (s, (tr @ [?ev]) @ new, Returned ())"
      and acts: "map fst new = map (SendText rcpt) chunks"
      and cc: "concat chunks = drop (i + maxLen) msg"
      and len: "\<forall>c \<in> set chunks. c \<noteq> [] \<and> length c \<le> maxLen"
      and n: "length chunks = (length msg - (i + maxLen) + maxLen - 1) div maxLen"
      by auto
    have e1: "exec (sendSafe_loop rcpt msg maxLen i) w s tr = (s, tr @ (?ev # new), Returned ())"
      using True "1.prems" ex
      by (subst sendSafe_loop.simps) (simp add: exec_bind exec_sendText_ok)
    have c1: "?c \<noteq> [] \<and> length ?c \<le> maxLen"
      using True "1.prems" by (simp add: slice_def)
    have c2: "concat (?c # chunks) = drop i msg"
      using cc by (simp add: slice_def add.commute[of i maxLen] flip: drop_drop)
    have "(length msg - i + maxLen - 1) div maxLen
            = Suc ((length msg - i - maxLen + maxLen - 1) div maxLen)"
      using ceil_step[of maxLen "length msg - i"] True "1.prems" by simp
    then have "(length msg - i + maxLen - 1) div maxLen
            = Suc ((length msg - (i + maxLen) + maxLen - 1) div maxLen)"
      by (simp add: diff_diff_left)
    with n have n': "length (?c # chunks) = (length msg - i + maxLen - 1) div maxLen"
      by simp
    show ?thesis
      using e1 acts c1 c2 len n'
      by (intro exI[of _ "?ev # new"] exI[of _ "?c # chunks"]) (simp del: length_Cons)
  qed
qed

text \<open>
  C3. For a text of length \<open>L\<close> and a chunk size \<open>C > 0\<close>, \<open>sendSafe\<close> sends the text as
  one message when \<open>L \<le> C\<close>; otherwise it sends \<open>\<lceil>L / C\<rceil>\<close> chunks, each of at most \<open>C\<close>
  code units, one after the other in the order of the text, and the chunks put together
  are the text. (Sends that are accepted: a rejected send ends the loop with its error.)
\<close>

theorem sendSafe_splits_text:
  assumes "0 < C" and "sends_ok w"
  shows "\<exists>new chunks.
           exec (sendSafe rcpt msg C) w s tr = (s, tr @ new, Returned ())
         \<and> map fst new = map (SendText rcpt) chunks
         \<and> concat chunks = msg
         \<and> (\<forall>c \<in> set chunks. length c \<le> C)
         \<and> (if length msg \<le> C then chunks = [msg]
            else length chunks = (length msg + C - 1) div C)"
proof (cases "length msg \<le> C")
  case True
  then have "exec (sendSafe rcpt msg C) w s tr
               = (s, tr @ [(SendText rcpt msg, send_out w (count is_send tr))], Returned ())"
    using assms by (simp add: sendSafe_def exec_sendText_ok)
  then show ?thesis
    using True
    by (intro exI[of _ "[(SendText rcpt msg, send_out w (count is_send tr))]"]
              exI[of _ "[msg]"]) simp
next
  case False
  from sendSafe_loop_chunks[OF assms, of rcpt msg 0 s tr]
  obtain new chunks where
    "exec (sendSafe_loop rcpt msg C 0) w s tr = (s, tr @ new, Returned ())"
    "map fst new = map (SendText rcpt) chunks"
    "concat chunks = msg"
    "\<forall>c \<in> set chunks. c \<noteq> [] \<and> length c \<le> C"
    "length chunks = (length msg + C - 1) div C"
    by auto
  then show ?thesis
    using False
    by (intro exI[of _ new] exI[of _ chunks]) (simp add: sendSafe_def)
qed

theorem sendSafe_splits_text_witness:
  "0 < (2::nat) \<and> sends_ok world_ok
   \<and> (\<exists>new chunks.
         exec (sendSafe (js ''u'') (js ''hello'') 2) world_ok initial []
           = (initial, [] @ new, Returned ())
       \<and> map fst new = map (SendText (js ''u'')) chunks
       \<and> concat chunks = js ''hello''
       \<and> (\<forall>c \<in> set chunks. length c \<le> 2)
       \<and> (if length (js ''hello'') \<le> 2 then chunks = [js ''hello'']
          else length chunks = (length (js ''hello'') + 2 - 1) div 2))"
proof -
  have ok: "sends_ok world_ok"
    by (simp add: sends_ok_def world_ok_def)
  show ?thesis
    using sendSafe_splits_text[OF _ ok, of 2 "js ''u''" "js ''hello''" initial "[]"] ok
    by simp
qed

subsection \<open>The retry loop\<close>

lemma attempt_delays_pause:
  "attempt_delays acc (map fst (pause_events delays i) @ Post pathname d # rest)
     = (acc + delay_before i) # attempt_delays 0 rest"
  by (simp add: pause_events_def delay_before_def split: option.split)

lemma postWithRetry_loop_success:
  assumes "\<forall>j < m. \<exists>e. post_out w (count is_post tr + j) = Rejected e"
    and "post_out w (count is_post tr + m) = Resolved r"
    and "i + m < tries"
  shows "\<exists>new. exec (postWithRetry_loop pathname d tries i lastErr) w s tr
                 = (s, tr @ new, Returned r)
             \<and> count is_post new = Suc m
             \<and> attempt_delays 0 (map fst new) = map delay_before [i..<i + Suc m]"
  using assms
proof (induction m arbitrary: i tr lastErr)
  case 0
  let ?new = "pause_events delays i @ [(Post pathname d, Resolved r)]"
  have "exec (postWithRetry_loop pathname d tries i lastErr) w s tr = (s, tr @ ?new, Returned r)"
    using 0 by (simp add: postWithRetry_loop_step)
  moreover have "count is_post ?new = Suc 0"
    by simp
  moreover have "attempt_delays 0 (map fst ?new) = map delay_before [i..<i + Suc 0]"
    by (simp add: attempt_delays_pause)
  ultimately show ?case by blast
next
  case (Suc m)
  from Suc.prems(1) obtain e where e: "post_out w (count is_post tr) = Rejected e"
    by force
  let ?ev = "pause_events delays i @ [(Post pathname d, Rejected e)]"
  let ?tr = "tr @ ?ev"
  have cnt: "count is_post ?tr = Suc (count is_post tr)"
    by simp
  have "\<forall>j < m. \<exists>e. post_out w (count is_post ?tr + j) = Rejected e"
    using Suc.prems(1) by (simp only: cnt) (metis Suc_less_eq add_Suc_shift)
  moreover have "post_out w (count is_post ?tr + m) = Resolved r"
    using Suc.prems(2) by (simp only: cnt) simp
  moreover have "Suc i + m < tries"
    using Suc.prems(3) by simp
  ultimately obtain new where
    ex: "exec (postWithRetry_loop pathname d tries (Suc i) e) w s ?tr = (s, ?tr @ new, Returned r)"
    and n: "count is_post new = Suc m"
    and ds: "attempt_delays 0 (map fst new) = map delay_before [Suc i..<Suc i + Suc m]"
    using Suc.IH[of ?tr "Suc i" e] by blast
  have "exec (postWithRetry_loop pathname d tries i lastErr) w s tr = (s, tr @ (?ev @ new), Returned r)"
    using Suc.prems(3) e ex by (simp add: postWithRetry_loop_step)
  moreover have "count is_post (?ev @ new) = Suc (Suc m)"
    using n by simp
  moreover have "attempt_delays 0 (map fst (?ev @ new)) = map delay_before [i..<i + Suc (Suc m)]"
    using ds by (simp add: attempt_delays_pause upt_conv_Cons del: upt_Suc)
  ultimately show ?case by blast
qed

lemma postWithRetry_loop_exhausted:
  assumes "\<forall>j < m. post_out w (count is_post tr + j) = Rejected (err j)"
    and "i + m = tries"
  shows "\<exists>new. exec (postWithRetry_loop pathname d tries i lastErr) w s tr
                 = (s, tr @ new, Thrown (if m = 0 then lastErr else err (m - 1)))
             \<and> count is_post new = m
             \<and> count is_send new = 0
             \<and> attempt_delays 0 (map fst new) = map delay_before [i..<i + m]"
  using assms
proof (induction m arbitrary: i tr lastErr err)
  case 0
  then have "exec (postWithRetry_loop pathname d tries i lastErr) w s tr = (s, tr @ [], Thrown lastErr)"
    by (simp add: postWithRetry_loop_step)
  then show ?case by (intro exI[of _ "[]"]) simp
next
  case (Suc m)
  have e: "post_out w (count is_post tr) = Rejected (err 0)"
    using Suc.prems(1) by force
  let ?ev = "pause_events delays i @ [(Post pathname d, Rejected (err 0))]"
  let ?tr = "tr @ ?ev"
  have cnt: "count is_post ?tr = Suc (count is_post tr)"
    by simp
  have "\<forall>j < m. post_out w (count is_post ?tr + j) = Rejected (err (Suc j))"
    using Suc.prems(1) by (simp only: cnt) (metis Suc_less_eq add_Suc_shift)
  moreover have "Suc i + m = tries"
    using Suc.prems(2) by simp
  ultimately obtain new where
    ex: "exec (postWithRetry_loop pathname d tries (Suc i) (err 0)) w s ?tr
           = (s, ?tr @ new, Thrown (if m = 0 then err 0 else err (Suc (m - 1))))"
    and n: "count is_post new = m" "count is_send new = 0"
    and ds: "attempt_delays 0 (map fst new) = map delay_before [Suc i..<Suc i + m]"
    using Suc.IH[of ?tr "\<lambda>j. err (Suc j)" "Suc i" "err 0"] by blast
  have "exec (postWithRetry_loop pathname d tries i lastErr) w s tr
          = (s, tr @ (?ev @ new), Thrown (err m))"
    using Suc.prems(2) e ex by (cases m) (simp_all add: postWithRetry_loop_step)
  moreover have "count is_post (?ev @ new) = Suc m" "count is_send (?ev @ new) = 0"
    using n by simp_all
  moreover have "attempt_delays 0 (map fst (?ev @ new)) = map delay_before [i..<i + Suc m]"
    using ds by (simp add: attempt_delays_pause upt_conv_Cons del: upt_Suc)
  ultimately show ?case
    by (intro exI[of _ "?ev @ new"]) simp
qed

lemma delay_before_nth:
  "delay_before i = (if i < 3 then [0, 2000, 5000] ! i else 0)"
  by (simp add: delay_before_def delay_at_def delays_def)

lemma schedule_prefix:
  "map delay_before [0..<N] = take N ([0, 2000, 5000] @ replicate (N - 3) 0)"
proof (rule nth_equalityI)
  show "length (map delay_before [0..<N]) = length (take N ([0, 2000, 5000] @ replicate (N - 3) 0))"
    by simp
next
  fix i
  assume "i < length (map delay_before [0..<N])"
  then have i: "i < N" by simp
  show "map delay_before [0..<N] ! i = take N ([0, 2000, 5000] @ replicate (N - 3) 0) ! i"
  proof (cases "i < 3")
    case True
    then consider "i = 0" | "i = 1" | "i = 2"
      by linarith
    then show ?thesis
      using i by cases (simp_all add: delay_before_nth)
  next
    case False
    then have "i - 3 < N - 3"
      using i by simp
    then show ?thesis
      using i False by (simp add: delay_before_nth nth_append)
  qed
qed

lemma schedule_increasing:
  assumes "N \<le> 3"
  shows "sorted_wrt (<) (take N ([0, 2000, 5000 :: nat] @ replicate (N - 3) 0))"
proof -
  consider "N = 0" | "N = 1" | "N = 2" | "N = 3"
    using assms by linarith
  then show ?thesis
    by cases (simp_all add: numeral_2_eq_2 numeral_3_eq_3)
qed

text \<open>
  C1, as the code has it. When the backend rejects the first \<open>N - 1\<close> requests and accepts
  the \<open>N\<close>-th, with \<open>N \<le> tries\<close>, \<open>postWithRetry\<close> returns the body of that response after
  exactly \<open>N\<close> requests. The time slept before request \<open>i\<close> is entry \<open>i\<close> of 0, 2000, 5000 for
  \<open>i < 3\<close> and nothing from the fourth request on; up to three requests the delays grow
  strictly.
\<close>

theorem postWithRetry_succeeds_on_Nth:
  assumes "0 < N" and "N \<le> tries"
    and "\<forall>j < N - 1. \<exists>e. post_out w (count is_post tr + j) = Rejected e"
    and "post_out w (count is_post tr + (N - 1)) = Resolved r"
  shows "\<exists>new. exec (postWithRetry pathname d tries) w s tr = (s, tr @ new, Returned r)
             \<and> count is_post new = N
             \<and> attempt_delays 0 (map fst new) = take N ([0, 2000, 5000] @ replicate (N - 3) 0)
             \<and> (N \<le> 3 \<longrightarrow> sorted_wrt (<) (attempt_delays 0 (map fst new)))"
proof -
  from assms(1,2) have lt: "0 + (N - 1) < tries" and N: "0 + Suc (N - 1) = N" "Suc (N - 1) = N"
    by simp_all
  from postWithRetry_loop_success[OF assms(3) assms(4) lt, of pathname d Undefined s]
  obtain new where
    ex: "exec (postWithRetry_loop pathname d tries 0 Undefined) w s tr = (s, tr @ new, Returned r)"
    and n: "count is_post new = N"
    and ds: "attempt_delays 0 (map fst new) = map delay_before [0..<N]"
    by (simp only: N add_0) blast
  have ds': "attempt_delays 0 (map fst new) = take N ([0, 2000, 5000] @ replicate (N - 3) 0)"
    using ds by (simp only: schedule_prefix)
  have "N \<le> 3 \<longrightarrow> sorted_wrt (<) (attempt_delays 0 (map fst new))"
    using schedule_increasing[of N] by (simp only: ds') simp
  with ex n ds' show ?thesis
    unfolding postWithRetry_def by blast
qed

theorem postWithRetry_succeeds_on_Nth_witness:
  "0 < (2::nat) \<and> (2::nat) \<le> 3
   \<and> post_out world_second (count is_post [] + 0) = Rejected (Failure 0)
   \<and> post_out world_second (count is_post [] + (2 - 1)) = Resolved (Reply (js ''ok''))
   \<and> (\<exists>new. exec (postWithRetry (js ''/correct'') (ResetReq (js ''u'')) 3) world_second initial []
                = (initial, [] @ new, Returned (Reply (js ''ok'')))
            \<and> count is_post new = 2
            \<and> attempt_delays 0 (map fst new) = take 2 ([0, 2000, 5000] @ replicate (2 - 3) 0)
            \<and> (2 \<le> (3::nat) \<longrightarrow> sorted_wrt (<) (attempt_delays 0 (map fst new))))"
proof -
  have a: "\<forall>j < 2 - 1. \<exists>e. post_out world_second (count is_post [] + j) = Rejected e"
    by (simp add: world_second_def)
  have b: "post_out world_second (count is_post [] + (2 - 1)) = Resolved (Reply (js ''ok''))"
    by (simp add: world_second_def)
  show ?thesis
    using postWithRetry_succeeds_on_Nth[of 2 3 world_second "[]" "Reply (js ''ok'')"
            "js ''/correct''" "ResetReq (js ''u'')" initial, OF _ _ a b] b
    by (simp add: world_second_def)
qed

text \<open>
  C1 as it is stated fails when more than three attempts are allowed: the fourth request
  follows the third at once, after the third had waited 5000 ms.
\<close>

theorem postWithRetry_fourth_attempt_counterexample:
  "exec (postWithRetry (js ''/correct'') (ResetReq (js ''u'')) 4) world_fourth initial []
     = (initial,
        [(Post (js ''/correct'') (ResetReq (js ''u'')), Rejected (Failure 0)),
         (Sleep 2000, Resolved NoReply),
         (Post (js ''/correct'') (ResetReq (js ''u'')), Rejected (Failure 1)),
         (Sleep 5000, Resolved NoReply),
         (Post (js ''/correct'') (ResetReq (js ''u'')), Rejected (Failure 2)),
         (Post (js ''/correct'') (ResetReq (js ''u'')), Resolved (Reply (js ''ok'')))],
        Returned (Reply (js ''ok'')))
   \<and> attempt_delays 0 (map fst (fst (snd
         (exec (postWithRetry (js ''/correct'') (ResetReq (js ''u'')) 4) world_fourth initial []))))
       = [0, 2000, 5000, 0]
   \<and> \<not> sorted_wrt (<) (attempt_delays 0 (map fst (fst (snd
         (exec (postWithRetry (js ''/correct'') (ResetReq (js ''u'')) 4) world_fourth initial [])))))"
proof -
  have run4:
    "exec (postWithRetry (js ''/correct'') (ResetReq (js ''u'')) 4) world_fourth initial []
       = (initial,
          [(Post (js ''/correct'') (ResetReq (js ''u'')), Rejected (Failure 0)),
           (Sleep 2000, Resolved NoReply),
           (Post (js ''/correct'') (ResetReq (js ''u'')), Rejected (Failure 1)),
           (Sleep 5000, Resolved NoReply),
           (Post (js ''/correct'') (ResetReq (js ''u'')), Rejected (Failure 2)),
           (Post (js ''/correct'') (ResetReq (js ''u'')), Resolved (Reply (js ''ok'')))],
          Returned (Reply (js ''ok'')))"
    by (simp add: postWithRetry_def postWithRetry_loop_step pause_events_def delay_at_def
          delays_def world_fourth_def)
  show ?thesis
    unfolding run4 by simp
qed

subsection \<open>The retry loop of the first version\<close>

lemma postWithRetry_v1_loop_step:
  "exec (postWithRetry_v1_loop path d tries i lastErr) w s tr =
     (if i < tries then
        (case post_out w (count is_post tr) of
           Resolved r \<Rightarrow> (s, tr @ [(Post path d, Resolved r)], Returned r)
         | Rejected e \<Rightarrow>
             exec (postWithRetry_v1_loop path d tries (i + 1) e) w s
               (tr @ (Post path d, Rejected e)
                   # (if i < tries - 1 then [(Sleep 800, Resolved NoReply)] else [])))
      else (s, tr, Thrown lastErr))"
  by (subst postWithRetry_v1_loop.simps)
     (simp add: exec_try_catch exec_bind exec_sleep exec_await split: outcome.split)

lemma postWithRetry_v1_loop_success:
  assumes "\<forall>j < m. \<exists>e. post_out w (count is_post tr + j) = Rejected e"
    and "post_out w (count is_post tr + m) = Resolved r"
    and "i + m < tries"
  shows "\<exists>new. exec (postWithRetry_v1_loop path d tries i lastErr) w s tr
                 = (s, tr @ new, Returned r)
             \<and> count is_post new = Suc m
             \<and> attempt_delays acc (map fst new) = acc # replicate m 800"
  using assms
proof (induction m arbitrary: i tr lastErr acc)
  case 0
  let ?new = "[(Post path d, Resolved r)]"
  have "exec (postWithRetry_v1_loop path d tries i lastErr) w s tr = (s, tr @ ?new, Returned r)"
    using 0 by (simp add: postWithRetry_v1_loop_step)
  then show ?case
    by (intro exI[of _ ?new]) simp
next
  case (Suc m)
  from Suc.prems(1) obtain e where e: "post_out w (count is_post tr) = Rejected e"
    by force
  have lt: "i < tries - 1" "i < tries"
    using Suc.prems(3) by simp_all
  let ?ev = "[(Post path d, Rejected e), (Sleep 800, Resolved NoReply)]"
  let ?tr = "tr @ ?ev"
  have cnt: "count is_post ?tr = Suc (count is_post tr)"
    by simp
  have "\<forall>j < m. \<exists>e. post_out w (count is_post ?tr + j) = Rejected e"
    using Suc.prems(1) by (simp only: cnt) (metis Suc_less_eq add_Suc_shift)
  moreover have "post_out w (count is_post ?tr + m) = Resolved r"
    using Suc.prems(2) by (simp only: cnt) simp
  moreover have "Suc i + m < tries"
    using Suc.prems(3) by simp
  ultimately obtain new where
    ex: "exec (postWithRetry_v1_loop path d tries (Suc i) e) w s ?tr = (s, ?tr @ new, Returned r)"
    and n: "count is_post new = Suc m"
    and ds: "attempt_delays 800 (map fst new) = 800 # replicate m 800"
    using Suc.IH[of ?tr "Suc i" e 800] by blast
  have "exec (postWithRetry_v1_loop path d tries i lastErr) w s tr = (s, tr @ (?ev @ new), Returned r)"
    using lt e ex by (simp add: postWithRetry_v1_loop_step)
  moreover have "count is_post (?ev @ new) = Suc (Suc m)"
    using n by simp
  moreover have "attempt_delays acc (map fst (?ev @ new)) = acc # replicate (Suc m) 800"
    using ds by simp
  ultimately show ?case by blast
qed

text \<open>
  The first version: success on attempt \<open>N\<close> after \<open>N\<close> requests, with no pause before the
  first and 800 ms before every later one (so not strictly longer from the third on).
\<close>

lemma postWithRetry_v1_succeeds_on_Nth:
  assumes "0 < N" and "N \<le> tries"
    and "\<forall>j < N - 1. \<exists>e. post_out w (count is_post tr + j) = Rejected e"
    and "post_out w (count is_post tr + (N - 1)) = Resolved r"
  shows "\<exists>new. exec (postWithRetry_v1 path d tries) w s tr = (s, tr @ new, Returned r)
             \<and> count is_post new = N
             \<and> attempt_delays 0 (map fst new) = 0 # replicate (N - 1) 800"
proof -
  from assms(1,2) have lt: "0 + (N - 1) < tries" and N: "Suc (N - 1) = N"
    by simp_all
  from postWithRetry_v1_loop_success[OF assms(3) assms(4) lt, of path d Undefined s 0]
  show ?thesis
    unfolding postWithRetry_v1_def N .
qed

subsection \<open>Branches of a computation\<close>

lemma within_mono:
  "within A U p \<Longrightarrow> (\<And>a. A a \<Longrightarrow> A' a) \<Longrightarrow> (\<And>g. U g \<Longrightarrow> U' g) \<Longrightarrow> within A' U' p"
  by (induction p) auto

lemma within_bind:
  "within A U p \<Longrightarrow> (\<And>x. within A U (f x)) \<Longrightarrow> within A U (bind p f)"
  by (induction p) auto

lemma within_try_catch:
  "within A U p \<Longrightarrow> (\<And>e. within A U (h e)) \<Longrightarrow> within A U (try_catch p h)"
  by (induction p) auto

lemma may_diverge_bind:
  "may_diverge (bind p f) \<Longrightarrow> may_diverge p \<or> (\<exists>x. may_diverge (f x))"
  by (induction p) auto

lemma may_diverge_try_catch:
  "may_diverge (try_catch p h) \<Longrightarrow> may_diverge p \<or> (\<exists>e. may_diverge (h e))"
  by (induction p) auto

lemma may_throw_try_catch:
  "may_throw (try_catch p h) \<Longrightarrow> \<exists>e. may_throw (h e)"
  by (induction p) auto

lemma exec_within:
  assumes "within A U p" and "exec p w s tr = (s', tr', r)"
  shows "\<exists>new. tr' = tr @ new \<and> list_all (\<lambda>ev. A (fst ev)) new"
  using assms
proof (induction p arbitrary: s tr)
  case (Await a k)
  let ?out = "respond w tr a"
  from Await.prems have "within A U (k ?out)" and "A a"
    and "exec (k ?out) w s (tr @ [(a, ?out)]) = (s', tr', r)"
    by simp_all
  from Await.IH[OF rangeI this(1) this(3)] obtain new where
    "tr' = (tr @ [(a, ?out)]) @ new" "list_all (\<lambda>ev. A (fst ev)) new"
    by blast
  then show ?case
    using \<open>A a\<close> by (intro exI[of _ "(a, ?out) # new"]) simp
next
  case (Read k)
  from Read.prems have "within A U (k s)" and "exec (k s) w s tr = (s', tr', r)"
    by simp_all
  from Read.IH[OF rangeI this] show ?case .
next
  case (Update g p)
  from Update.prems have "within A U p" and "exec p w (g s) tr = (s', tr', r)"
    by simp_all
  from Update.IH[OF this] show ?case .
qed simp_all

lemma exec_frame:
  assumes "within A (\<lambda>g. \<forall>s. f (g s) = f s) p" and "exec p w s tr = (s', tr', r)"
  shows "f s' = f s"
  using assms
proof (induction p arbitrary: s tr)
  case (Await a k)
  let ?out = "respond w tr a"
  from Await.prems have "within A (\<lambda>g. \<forall>s. f (g s) = f s) (k ?out)"
    and "exec (k ?out) w s (tr @ [(a, ?out)]) = (s', tr', r)"
    by simp_all
  from Await.IH[OF rangeI this] show ?case .
next
  case (Read k)
  from Read.prems have "within A (\<lambda>g. \<forall>s. f (g s) = f s) (k s)"
    and "exec (k s) w s tr = (s', tr', r)"
    by simp_all
  from Read.IH[OF rangeI this] show ?case .
next
  case (Update g p)
  from Update.prems have "within A (\<lambda>g. \<forall>s. f (g s) = f s) p"
    and "exec p w (g s) tr = (s', tr', r)" and "f (g s) = f s"
    by simp_all
  from Update.IH[OF this(1,2)] this(3) show ?case by simp
qed simp_all

lemma exec_no_throw:
  assumes "\<not> may_throw p" and "exec p w s tr = (s', tr', r)"
  shows "r \<noteq> Thrown e"
  using assms
proof (induction p arbitrary: s tr)
  case (Await a k)
  let ?out = "respond w tr a"
  from Await.prems have "\<not> may_throw (k ?out)"
    and "exec (k ?out) w s (tr @ [(a, ?out)]) = (s', tr', r)"
    by simp_all
  from Await.IH[OF rangeI this] show ?case .
next
  case (Read k)
  from Read.prems have "\<not> may_throw (k s)" and "exec (k s) w s tr = (s', tr', r)"
    by simp_all
  from Read.IH[OF rangeI this] show ?case .
next
  case (Update g p)
  from Update.prems have "\<not> may_throw p" and "exec p w (g s) tr = (s', tr', r)"
    by simp_all
  from Update.IH[OF this] show ?case .
qed auto

lemma exec_no_diverge:
  assumes "\<not> may_diverge p" and "exec p w s tr = (s', tr', r)"
  shows "r \<noteq> Diverged"
  using assms
proof (induction p arbitrary: s tr)
  case (Await a k)
  let ?out = "respond w tr a"
  from Await.prems have "\<not> may_diverge (k ?out)"
    and "exec (k ?out) w s (tr @ [(a, ?out)]) = (s', tr', r)"
    by simp_all
  from Await.IH[OF rangeI this] show ?case .
next
  case (Read k)
  from Read.prems have "\<not> may_diverge (k s)" and "exec (k s) w s tr = (s', tr', r)"
    by simp_all
  from Read.IH[OF rangeI this] show ?case .
next
  case (Update g p)
  from Update.prems have "\<not> may_diverge p" and "exec p w (g s) tr = (s', tr', r)"
    by simp_all
  from Update.IH[OF this] show ?case .
qed auto

lemma within_await: "A a \<Longrightarrow> within A U (await a)"
  by (simp add: await_def split: outcome.split)

lemma within_sendText: "A (SendText rcpt msg) \<Longrightarrow> within A U (sendText rcpt msg)"
  by (simp add: sendText_def within_bind within_await)

lemma within_sleep: "A (Sleep ms) \<Longrightarrow> within A U (sleep ms)"
  by (simp add: sleep_def within_bind within_await)

lemma within_pause: "(\<And>ms. A (Sleep ms)) \<Longrightarrow> within A U (pause ds i)"
  by (simp add: pause_def within_sleep split: option.split)

lemma within_postWithRetry_loop:
  assumes "A (Post pathname d)" and "\<And>ms. A (Sleep ms)"
  shows "within A U (postWithRetry_loop pathname d tries i lastErr)"
  using assms(1)
proof (induction pathname d tries i lastErr rule: postWithRetry_loop.induct)
  case (1 pathname d tries i lastErr)
  show ?case
    using assms(2) "1.prems" "1.IH"
    by (subst postWithRetry_loop.simps)
       (auto intro!: within_try_catch within_bind within_pause within_await)
qed

lemma within_postWithRetry:
  "A (Post pathname d) \<Longrightarrow> (\<And>ms. A (Sleep ms)) \<Longrightarrow> within A U (postWithRetry pathname d tries)"
  by (simp add: postWithRetry_def within_postWithRetry_loop)

lemma within_getHealthWithRetry_loop:
  assumes "A GetHealth" and "\<And>ms. A (Sleep ms)"
  shows "within A U (getHealthWithRetry_loop tries i lastErr)"
proof (induction tries i lastErr rule: getHealthWithRetry_loop.induct)
  case (1 tries i lastErr)
  show ?case
    using assms "1.IH"
    by (subst getHealthWithRetry_loop.simps)
       (auto intro!: within_try_catch within_bind within_pause within_await)
qed

lemma within_sendSafe_loop:
  assumes "\<And>c. A (SendText rcpt c)"
  shows "within A U (sendSafe_loop rcpt msg C i)"
  using assms
proof (induction rcpt msg C i rule: sendSafe_loop.induct)
  case (1 rcpt msg maxLen i)
  show ?case
    using "1.prems" "1.IH"
    by (subst sendSafe_loop.simps) (auto intro!: within_bind within_sendText)
qed

lemma within_sendSafe:
  "(\<And>c. A (SendText rcpt c)) \<Longrightarrow> within A U (sendSafe rcpt msg C)"
  by (simp add: sendSafe_def within_sendSafe_loop within_sendText)

lemma no_diverge_await: "\<not> may_diverge (await a)"
  by (simp add: await_def split: outcome.split)

lemma no_diverge_sendText: "\<not> may_diverge (sendText rcpt msg)"
  using may_diverge_bind[of "await (SendText rcpt msg)" "\<lambda>_. Return ()"]
  by (auto simp: sendText_def no_diverge_await)

lemma no_diverge_sleep: "\<not> may_diverge (sleep ms)"
  using may_diverge_bind[of "await (Sleep ms)" "\<lambda>_. Return ()"]
  by (auto simp: sleep_def no_diverge_await)

lemma no_diverge_pause: "\<not> may_diverge (pause ds i)"
  by (simp add: pause_def no_diverge_sleep split: option.split)

lemma no_diverge_postWithRetry_loop:
  "\<not> may_diverge (postWithRetry_loop pathname d tries i lastErr)"
proof (induction pathname d tries i lastErr rule: postWithRetry_loop.induct)
  case (1 pathname d tries i lastErr)
  show ?case
  proof
    assume "may_diverge (postWithRetry_loop pathname d tries i lastErr)"
    then have lt: "i < tries"
      and "may_diverge (try_catch
              (bind (pause delays i) (\<lambda>_. bind (await (Post pathname d)) (\<lambda>resp. Return resp)))
              (\<lambda>err. postWithRetry_loop pathname d tries (i + 1) err))"
      by (subst (asm) postWithRetry_loop.simps, simp split: if_splits)+
    from may_diverge_try_catch[OF this(2)] "1.IH"[OF lt]
    have "may_diverge (bind (pause delays i) (\<lambda>_. bind (await (Post pathname d)) (\<lambda>resp. Return resp)))"
      by blast
    from may_diverge_bind[OF this] no_diverge_pause
    obtain x :: unit where "may_diverge (bind (await (Post pathname d)) (\<lambda>resp. Return resp))"
      by blast
    from may_diverge_bind[OF this] show False
      by (simp add: no_diverge_await)
  qed
qed

lemma no_diverge_getHealthWithRetry_loop:
  "\<not> may_diverge (getHealthWithRetry_loop tries i lastErr)"
proof (induction tries i lastErr rule: getHealthWithRetry_loop.induct)
  case (1 tries i lastErr)
  show ?case
  proof
    assume "may_diverge (getHealthWithRetry_loop tries i lastErr)"
    then have lt: "i < tries"
      and "may_diverge (try_catch
              (bind (pause health_delays i) (\<lambda>_. bind (await GetHealth) (\<lambda>d. Return d)))
              (\<lambda>err. getHealthWithRetry_loop tries (i + 1) err))"
      by (subst (asm) getHealthWithRetry_loop.simps, simp split: if_splits)+
    from may_diverge_try_catch[OF this(2)] "1.IH"[OF lt]
    have "may_diverge (bind (pause health_delays i) (\<lambda>_. bind (await GetHealth) (\<lambda>d. Return d)))"
      by blast
    from may_diverge_bind[OF this] no_diverge_pause
    obtain x :: unit where "may_diverge (bind (await GetHealth) (\<lambda>d. Return d))"
      by blast
    from may_diverge_bind[OF this] show False
      by (simp add: no_diverge_await)
  qed
qed

lemma no_diverge_sendSafe_loop:
  assumes "0 < C"
  shows "\<not> may_diverge (sendSafe_loop rcpt msg C i)"
  using assms
proof (induction rcpt msg C i rule: sendSafe_loop.induct)
  case (1 rcpt msg maxLen i)
  show ?case
  proof
    assume "may_diverge (sendSafe_loop rcpt msg maxLen i)"
    then have lt: "i < length msg"
      and "may_diverge (bind (sendText rcpt (slice msg i (i + maxLen)))
              (\<lambda>_. sendSafe_loop rcpt msg maxLen (i + maxLen)))"
      using "1.prems" by (subst (asm) sendSafe_loop.simps, simp split: if_splits)+
    from may_diverge_bind[OF this(2)] "1.IH"[OF lt _ "1.prems"] "1.prems"
    show False
      by (auto simp: no_diverge_sendText)
  qed
qed

lemma no_diverge_sendSafe: "0 < C \<Longrightarrow> \<not> may_diverge (sendSafe rcpt msg C)"
  by (simp add: sendSafe_def no_diverge_sendSafe_loop no_diverge_sendText)

subsection \<open>The warm-up and the two filters\<close>

lemma pause_events_sleep:
  "list_all (\<lambda>ev. is_get (fst ev) \<or> is_sleep (fst ev)) (pause_events ds i)"
  by (simp add: pause_events_def split: option.split)

lemma getHealthWithRetry_loop_trace:
  "\<exists>new r. exec (getHealthWithRetry_loop tries i lastErr) w s tr = (s, tr @ new, r)
         \<and> list_all (\<lambda>ev. is_get (fst ev) \<or> is_sleep (fst ev)) new
         \<and> count is_get new \<le> tries - i"
proof (induction "tries - i" arbitrary: i tr lastErr)
  case 0
  then have "exec (getHealthWithRetry_loop tries i lastErr) w s tr = (s, tr @ [], Thrown lastErr)"
    by (simp add: getHealthWithRetry_loop_step)
  then show ?case
    by (intro exI[of _ "[]"] exI[of _ "Thrown lastErr"]) simp
next
  case (Suc n)
  then have lt: "i < tries" and n: "n = tries - Suc i"
    by simp_all
  show ?case
  proof (cases "get_out w (count is_get tr)")
    case (Resolved d)
    let ?new = "pause_events health_delays i @ [(GetHealth, Resolved d)]"
    have "exec (getHealthWithRetry_loop tries i lastErr) w s tr = (s, tr @ ?new, Returned d)"
      using lt Resolved by (simp add: getHealthWithRetry_loop_step)
    moreover have "list_all (\<lambda>ev. is_get (fst ev) \<or> is_sleep (fst ev)) ?new"
      by (simp add: pause_events_sleep)
    moreover have "count is_get ?new \<le> tries - i"
      using lt by simp
    ultimately show ?thesis by blast
  next
    case (Rejected e)
    let ?ev = "pause_events health_delays i @ [(GetHealth, Rejected e)]"
    from Suc.hyps(1)[OF n, of e "tr @ ?ev"] obtain new r where
      ex: "exec (getHealthWithRetry_loop tries (Suc i) e) w s (tr @ ?ev) = (s, (tr @ ?ev) @ new, r)"
      and all: "list_all (\<lambda>ev. is_get (fst ev) \<or> is_sleep (fst ev)) new"
      and cnt: "count is_get new \<le> tries - Suc i"
      by blast
    have "exec (getHealthWithRetry_loop tries i lastErr) w s tr = (s, tr @ (?ev @ new), r)"
      using lt Rejected ex by (simp add: getHealthWithRetry_loop_step)
    moreover have "list_all (\<lambda>ev. is_get (fst ev) \<or> is_sleep (fst ev)) (?ev @ new)"
      using all by (simp add: pause_events_sleep)
    moreover have "count is_get (?ev @ new) \<le> tries - i"
      using cnt lt by simp
    ultimately show ?thesis by blast
  qed
qed

lemma exec_warmUp_warm:
  "warmedUp s \<Longrightarrow> exec (warmUp userPhone) w s tr = (s, tr, Returned ())"
  by (simp add: warmUp_def)

lemma exec_warmUp_cold:
  assumes "\<not> warmedUp s"
  shows "\<exists>pre. exec (warmUp userPhone) w s tr = (s\<lparr>warmedUp := True\<rparr>, tr @ pre, Returned ())
             \<and> warmup_trace userPhone pre
             \<and> snd (hd pre) = send_out w (count is_send tr)"
proof (cases "send_out w (count is_send tr)")
  case (Rejected e)
  let ?pre = "[(SendText userPhone preparing_notice, Rejected e)]"
  have "exec (warmUp userPhone) w s tr = (s\<lparr>warmedUp := True\<rparr>, tr @ ?pre, Returned ())"
    using assms Rejected
    by (simp add: warmUp_def exec_try_catch exec_bind exec_sendText)
  moreover have "warmup_trace userPhone ?pre"
    by (simp add: warmup_trace_def)
  moreover have "snd (hd ?pre) = send_out w (count is_send tr)"
    using Rejected by simp
  ultimately show ?thesis by blast
next
  case (Resolved d)
  let ?ev = "(SendText userPhone preparing_notice, Resolved d)"
  obtain new r where
    ex: "exec (getHealthWithRetry_loop 3 0 Undefined) w (s\<lparr>warmedUp := True\<rparr>) (tr @ [?ev])
           = (s\<lparr>warmedUp := True\<rparr>, (tr @ [?ev]) @ new, r)"
    and all: "list_all (\<lambda>ev. is_get (fst ev) \<or> is_sleep (fst ev)) new"
    and cnt: "count is_get new \<le> 3 - 0"
    using getHealthWithRetry_loop_trace[of 3 0 Undefined w "s\<lparr>warmedUp := True\<rparr>" "tr @ [?ev]"]
    by blast
  have nd: "r \<noteq> Diverged"
    using exec_no_diverge[OF no_diverge_getHealthWithRetry_loop ex] .
  have "exec (warmUp userPhone) w s tr = (s\<lparr>warmedUp := True\<rparr>, tr @ (?ev # new), Returned ())"
    using assms Resolved ex nd
    by (cases r)
       (simp_all add: warmUp_def exec_try_catch exec_bind exec_sendText getHealthWithRetry_def)
  moreover have "warmup_trace userPhone (?ev # new)"
    using all cnt by (simp add: warmup_trace_def)
  moreover have "snd (hd (?ev # new)) = send_out w (count is_send tr)"
    using Resolved by simp
  ultimately show ?thesis by blast
qed

lemma warmup_trace_counts:
  assumes "warmup_trace userPhone pre"
  shows "count is_post pre = 0" and "count is_send pre = 1"
proof -
  from assms obtain ev rest where pre: "pre = ev # rest"
    and ev: "fst ev = SendText userPhone preparing_notice"
    and all: "list_all (\<lambda>ev. is_get (fst ev) \<or> is_sleep (fst ev)) rest"
    by (auto simp: warmup_trace_def split: list.splits)
  have "filter (\<lambda>ev. is_post (fst ev)) rest = [] \<and> filter (\<lambda>ev. is_send (fst ev)) rest = []"
    using all
  proof (induction rest)
    case (Cons x xs)
    then show ?case by (cases "fst x") auto
  qed simp
  then show "count is_post pre = 0" and "count is_send pre = 1"
    using pre ev by (simp_all add: count_def)
qed

text \<open>An accepted message: the warm-up (if it is still due), then the dispatch.\<close>

lemma exec_handleMessage_try_accepted:
  assumes "accepted m"
  shows "\<exists>pre. exec (handleMessage_try m) w s tr
                 = exec (dispatch m (userPhone_of m) (body_of m)) w (s\<lparr>warmedUp := True\<rparr>) (tr @ pre)
             \<and> (if warmedUp s then pre = []
                else warmup_trace (userPhone_of m) pre
                   \<and> snd (hd pre) = send_out w (count is_send tr))"
proof (cases "warmedUp s")
  case True
  then have same: "s\<lparr>warmedUp := True\<rparr> = s"
    by simp
  have "exec (handleMessage_try m) w s tr
               = exec (dispatch m (userPhone_of m) (body_of m)) w (s\<lparr>warmedUp := True\<rparr>) (tr @ [])"
    using assms True unfolding same
    by (simp add: handleMessage_try_def accepted_def exec_bind exec_warmUp_warm Let_def)
  then show ?thesis
    using True by (intro exI[of _ "[]"]) simp
next
  case False
  from exec_warmUp_cold[OF False, of "userPhone_of m" w tr] obtain pre where
    "exec (warmUp (userPhone_of m)) w s tr = (s\<lparr>warmedUp := True\<rparr>, tr @ pre, Returned ())"
    "warmup_trace (userPhone_of m) pre"
    "snd (hd pre) = send_out w (count is_send tr)"
    by blast
  then show ?thesis
    using assms False
    by (intro exI[of _ pre]) (simp add: handleMessage_try_def accepted_def exec_bind Let_def)
qed

lemma exec_handleMessage_dropped:
  assumes "\<not> accepted m"
  shows "exec (handleMessage m) w s tr = (s, tr, Returned ())"
  using assms
  by (auto simp: handleMessage_def handleMessage_try_def accepted_def exec_try_catch Let_def)

text \<open>The outer \<^verbatim>\<open>try\<close>/\<^verbatim>\<open>catch\<close>.\<close>

lemma exec_handleMessage:
  "exec (handleMessage m) w s tr =
     (case exec (handleMessage_try m) w s tr of
        (s1, tr1, Thrown e) \<Rightarrow>
          (s1, tr1 @ [(SendText (or_else (sender_from m) (js ''unknown'')) unexpected_notice,
                       send_out w (count is_send tr1))], Returned ())
      | (s1, tr1, r) \<Rightarrow> (s1, tr1, r))"
  by (simp add: handleMessage_def exec_try_catch exec_sendText Let_def
           split: prod.split result.split outcome.split)

subsection \<open>Evaluating the handler on concrete messages\<close>

lemma user1_not_empty [simp]: "user1 \<noteq> []"
  by (simp add: user1_def js_def)

lemmas msg_eval =
  body_of_def userPhone_of_def or_else_def trim_def is_space_def toLowerCase_def
  lower_unit_def js_def Let_def chat_def group_chat_def voice_note_def audio_with_def

subsection \<open>No exception leaves the handler\<close>

lemma no_diverge_bindI:
  "\<not> may_diverge p \<Longrightarrow> (\<And>x. \<not> may_diverge (f x)) \<Longrightarrow> \<not> may_diverge (bind p f)"
  using may_diverge_bind by blast

lemma no_diverge_try_catchI:
  "\<not> may_diverge p \<Longrightarrow> (\<And>e. \<not> may_diverge (h e)) \<Longrightarrow> \<not> may_diverge (try_catch p h)"
  using may_diverge_try_catch by blast

lemma no_diverge_postWithRetry: "\<not> may_diverge (postWithRetry pathname d tries)"
  by (simp add: postWithRetry_def no_diverge_postWithRetry_loop)

lemma no_diverge_warmUp: "\<not> may_diverge (warmUp userPhone)"
  by (simp add: warmUp_def getHealthWithRetry_def no_diverge_try_catchI no_diverge_bindI
        no_diverge_sendText no_diverge_getHealthWithRetry_loop)

lemma no_diverge_forward_reply: "\<not> may_diverge (forward_reply userPhone d)"
  by (simp add: forward_reply_def no_diverge_sendSafe split: option.split)

lemma no_diverge_dispatch: "\<not> may_diverge (dispatch m userPhone b)"
  by (simp add: dispatch_def Let_def no_diverge_try_catchI no_diverge_bindI
        no_diverge_sendText no_diverge_postWithRetry no_diverge_forward_reply
      split: option.split)

lemma no_diverge_handleMessage: "\<not> may_diverge (handleMessage m)"
  by (simp add: handleMessage_def handleMessage_try_def Let_def no_diverge_try_catchI
        no_diverge_bindI no_diverge_sendText no_diverge_warmUp no_diverge_dispatch)

lemma no_throw_handleMessage: "\<not> may_throw (handleMessage m)"
proof
  assume "may_throw (handleMessage m)"
  then obtain e where
    "may_throw (try_catch (sendText (or_else (sender_from m) (js ''unknown'')) unexpected_notice)
                  (\<lambda>_. Return ()))"
    unfolding handleMessage_def Let_def using may_throw_try_catch by blast
  from may_throw_try_catch[OF this] show False
    by simp
qed

lemma handleMessage_returns:
  "\<exists>s' tr'. exec (handleMessage m) w s tr = (s', tr', Returned ())"
proof -
  obtain s' tr' r where ex: "exec (handleMessage m) w s tr = (s', tr', r)"
    by (metis prod_cases3)
  have "r = Returned ()"
    using exec_no_throw[OF no_throw_handleMessage ex] exec_no_diverge[OF no_diverge_handleMessage ex]
    by (cases r) auto
  with ex show ?thesis by blast
qed

text \<open>
  C9. \<open>handleMessage\<close> never raises, whatever the message and whatever the outcomes of
  its sends and requests: its run always ends by returning. When an exception leaves the
  \<^verbatim>\<open>try\<close> block, the handler does exactly one more thing: it sends the notice of an
  unexpected error to \<^verbatim>\<open>message.from\<close> (to \<^verbatim>\<open>'unknown'\<close> when that field is missing), and
  it returns whether that send is accepted or rejected.
\<close>

theorem handleMessage_never_raises:
  "\<exists>s' tr'. exec (handleMessage m) w s tr = (s', tr', Returned ())
     \<and> (\<forall>s1 tr1 e. exec (handleMessage_try m) w s tr = (s1, tr1, Thrown e) \<longrightarrow>
           s' = s1
         \<and> tr' = tr1 @ [(SendText (or_else (sender_from m) (js ''unknown'')) unexpected_notice,
                          send_out w (count is_send tr1))])"
proof -
  obtain s' tr' where ex: "exec (handleMessage m) w s tr = (s', tr', Returned ())"
    using handleMessage_returns by blast
  have "s' = s1 \<and> tr' = tr1 @ [(SendText (or_else (sender_from m) (js ''unknown'')) unexpected_notice,
                                  send_out w (count is_send tr1))]"
    if "exec (handleMessage_try m) w s tr = (s1, tr1, Thrown e)" for s1 tr1 e
    using ex that by (simp add: exec_handleMessage)
  with ex show ?thesis by blast
qed

lemma help_rejected:
  "exec (handleMessage_try (chat (js ''#Ajuda''))) world_deaf warmed []
     = (warmed, [(SendText user1 helpMessage, Rejected (Failure 0))], Thrown (Failure 0))"
  by (simp add: handleMessage_try_def dispatch_def msg_eval exec_bind exec_warmUp_warm
        warmed_def exec_sendText world_deaf_def)

theorem handleMessage_never_raises_witness:
  "exec (handleMessage_try (chat (js ''#Ajuda''))) world_deaf warmed []
     = (warmed, [(SendText user1 helpMessage, Rejected (Failure 0))], Thrown (Failure 0))
   \<and> exec (handleMessage (chat (js ''#Ajuda''))) world_deaf warmed []
     = (warmed,
        [(SendText user1 helpMessage, Rejected (Failure 0)),
         (SendText user1 unexpected_notice, Rejected (Failure 1))],
        Returned ())"
proof -
  have from_user: "or_else (sender_from (chat (js ''#Ajuda''))) (js ''unknown'') = user1"
    by (simp add: chat_def or_else_def)
  have deaf: "send_out world_deaf n = Rejected (Failure n)" for n
    by (simp add: world_deaf_def)
  show ?thesis
    using handleMessage_never_raises[of "chat (js ''#Ajuda'')" world_deaf warmed "[]"]
    by (auto simp: help_rejected from_user deaf)
qed

subsection \<open>The banner on a reply\<close>




subsection \<open>What an accepted message adds to the events\<close>

lemma within_warmUp:
  assumes "A (SendText userPhone preparing_notice)" and "A GetHealth" and "\<And>ms. A (Sleep ms)"
    and "U (\<lambda>s. s\<lparr>warmedUp := True\<rparr>)"
  shows "within A U (warmUp userPhone)"
  using assms
  by (simp add: warmUp_def getHealthWithRetry_def within_try_catch within_bind
        within_sendText within_getHealthWithRetry_loop)

lemma within_forward_reply:
  assumes "\<And>c. A (SendText userPhone c)"
  shows "within A U (forward_reply userPhone d)"
  using assms by (simp add: forward_reply_def within_sendSafe split: option.split)

lemma within_dispatch:
  assumes "\<And>c. A (SendText userPhone c)" and "\<And>pathname d. A (Post pathname d)"
    and "\<And>ms. A (Sleep ms)"
    and "\<not> (mtype m = js ''ptt'' \<or> mtype m = js ''audio'')
         \<Longrightarrow> b \<in> set [js ''1'', js ''2'', js ''3'', js ''4'']
         \<Longrightarrow> U (\<lambda>s. s\<lparr>userLevels := (userLevels s)(userPhone := levelMap b)\<rparr>)"
  shows "within A U (dispatch m userPhone b)"
  using assms
  by (simp add: dispatch_def Let_def within_try_catch within_bind within_sendText
        within_postWithRetry within_forward_reply split: option.split)

lemma dispatch_trace:
  assumes "exec (dispatch m userPhone b) w s tr = (s', tr', r)"
  shows "\<exists>new. tr' = tr @ new \<and> list_all (\<lambda>ev. \<not> is_get (fst ev)) new"
    and "warmedUp s' = warmedUp s"
proof -
  have "within (\<lambda>a. \<not> is_get a) (\<lambda>g. \<forall>s. warmedUp (g s) = warmedUp s) (dispatch m userPhone b)"
    by (rule within_dispatch) simp_all
  from exec_within[OF this assms] exec_frame[OF this assms]
  show "\<exists>new. tr' = tr @ new \<and> list_all (\<lambda>ev. \<not> is_get (fst ev)) new"
    and "warmedUp s' = warmedUp s"
    by simp_all
qed

lemma exec_handleMessage_accepted:
  assumes "accepted m"
  shows "\<exists>pre new s'.
           exec (handleMessage m) w s tr = (s', tr @ pre @ new, Returned ())
         \<and> (if warmedUp s then pre = []
            else warmup_trace (userPhone_of m) pre
               \<and> snd (hd pre) = send_out w (count is_send tr))
         \<and> warmedUp s'
         \<and> list_all (\<lambda>ev. \<not> is_get (fst ev)) new"
proof -
  from exec_handleMessage_try_accepted[OF assms, of w s tr] obtain pre where
    tb: "exec (handleMessage_try m) w s tr
            = exec (dispatch m (userPhone_of m) (body_of m)) w (s\<lparr>warmedUp := True\<rparr>) (tr @ pre)"
    and pre: "if warmedUp s then pre = []
              else warmup_trace (userPhone_of m) pre
                 \<and> snd (hd pre) = send_out w (count is_send tr)"
    by blast
  obtain s' tr1 r where
    d: "exec (dispatch m (userPhone_of m) (body_of m)) w (s\<lparr>warmedUp := True\<rparr>) (tr @ pre)
          = (s', tr1, r)"
    by (metis prod_cases3)
  from dispatch_trace[OF d] obtain new where
    tr1: "tr1 = (tr @ pre) @ new" and new: "list_all (\<lambda>ev. \<not> is_get (fst ev)) new"
    and s': "warmedUp s'"
    by auto
  obtain s2 tr2 where h: "exec (handleMessage m) w s tr = (s2, tr2, Returned ())"
    using handleMessage_returns by blast
  show ?thesis
  proof (cases r)
    case (Thrown e)
    let ?ev = "(SendText (or_else (sender_from m) (js ''unknown'')) unexpected_notice,
                send_out w (count is_send tr1))"
    have "exec (handleMessage m) w s tr = (s', tr @ pre @ (new @ [?ev]), Returned ())"
      using tb d tr1 Thrown by (simp add: exec_handleMessage)
    moreover have "list_all (\<lambda>ev. \<not> is_get (fst ev)) (new @ [?ev])"
      using new by simp
    ultimately show ?thesis
      using pre s' by blast
  next
    case (Returned u)
    then have "exec (handleMessage m) w s tr = (s', tr @ pre @ new, Returned ())"
      using tb d tr1 by (simp add: exec_handleMessage)
    then show ?thesis
      using pre s' new by blast
  next
    case Diverged
    then show ?thesis
      using tb d h by (simp add: exec_handleMessage)
  qed
qed

lemma settle_cold:
  assumes "accepted m" and "\<not> warmedUp s"
  shows "\<exists>k. settle (handleMessage m) s
               = (s\<lparr>warmedUp := True\<rparr>, Await (SendText (userPhone_of m) preparing_notice) k)"
  using assms
  by (simp add: handleMessage_def handleMessage_try_def accepted_def Let_def warmUp_def
        sendText_def await_def)

text \<open>The warm-up of a cold process, event by event.\<close>

lemma exec_warmUp_probe:
  assumes "\<not> warmedUp s"
  shows "\<exists>probes.
           exec (warmUp userPhone) w s tr
             = (s\<lparr>warmedUp := True\<rparr>,
                tr @ (SendText userPhone preparing_notice, send_out w (count is_send tr)) # probes,
                Returned ())
         \<and> list_all (\<lambda>ev. is_get (fst ev) \<or> is_sleep (fst ev)) probes
         \<and> count is_get probes \<le> 3
         \<and> (\<forall>d. send_out w (count is_send tr) = Resolved d
                \<longrightarrow> (\<exists>rest. probes = (GetHealth, get_out w (count is_get tr)) # rest))
         \<and> (\<forall>e. send_out w (count is_send tr) = Rejected e \<longrightarrow> probes = [])"
proof (cases "send_out w (count is_send tr)")
  case (Rejected e)
  have "exec (warmUp userPhone) w s tr
          = (s\<lparr>warmedUp := True\<rparr>,
             tr @ (SendText userPhone preparing_notice, send_out w (count is_send tr)) # [],
             Returned ())"
    using assms Rejected
    by (simp add: warmUp_def exec_try_catch exec_bind exec_sendText)
  then show ?thesis
    using Rejected by (intro exI[of _ "[]"]) simp
next
  case (Resolved d)
  let ?ev = "(SendText userPhone preparing_notice, Resolved d)"
  let ?s = "s\<lparr>warmedUp := True\<rparr>"
  have none: "pause_events health_delays 0 = []"
    by (simp add: pause_events_def health_delays_def delay_at_def)
  have g: "count is_get (tr @ [?ev]) = count is_get tr"
    by simp
  obtain probes r where
    ex: "exec (getHealthWithRetry_loop 3 0 Undefined) w ?s (tr @ [?ev]) = (?s, (tr @ [?ev]) @ probes, r)"
    and all: "list_all (\<lambda>ev. is_get (fst ev) \<or> is_sleep (fst ev)) probes"
    and cnt: "count is_get probes \<le> 3"
    and first: "\<exists>rest. probes = (GetHealth, get_out w (count is_get tr)) # rest"
  proof (cases "get_out w (count is_get tr)")
    case (Resolved r)
    have "exec (getHealthWithRetry_loop 3 0 Undefined) w ?s (tr @ [?ev])
            = (?s, (tr @ [?ev]) @ [(GetHealth, get_out w (count is_get tr))], Returned r)"
      using Resolved by (simp add: getHealthWithRetry_loop_step none)
    then show ?thesis
      by (rule that) simp_all
  next
    case (Rejected e)
    let ?g = "(GetHealth, Rejected e)"
    from getHealthWithRetry_loop_trace[of 3 1 e w ?s "tr @ [?ev, ?g]"] obtain new r where
      ex: "exec (getHealthWithRetry_loop 3 1 e) w ?s (tr @ [?ev, ?g]) = (?s, (tr @ [?ev, ?g]) @ new, r)"
      and all: "list_all (\<lambda>ev. is_get (fst ev) \<or> is_sleep (fst ev)) new"
      and cnt: "count is_get new \<le> 3 - 1"
      by blast
    have "exec (getHealthWithRetry_loop 3 0 Undefined) w ?s (tr @ [?ev])
            = (?s, (tr @ [?ev]) @ (?g # new), r)"
      using Rejected ex by (simp add: getHealthWithRetry_loop_step none)
    then show ?thesis
      by (rule that) (use all cnt Rejected in simp_all)
  qed
  have nd: "r \<noteq> Diverged"
    using exec_no_diverge[OF no_diverge_getHealthWithRetry_loop ex] .
  have "exec (warmUp userPhone) w s tr
          = (?s, tr @ (SendText userPhone preparing_notice, send_out w (count is_send tr)) # probes,
             Returned ())"
    using assms Resolved ex nd
    by (cases r)
       (simp_all add: warmUp_def exec_try_catch exec_bind exec_sendText getHealthWithRetry_def)
  then show ?thesis
    using all cnt first Resolved by (intro exI[of _ probes]) simp
qed

lemma exec_handleMessage_cold:
  assumes "accepted m" and "\<not> warmedUp s"
  shows "\<exists>s' probes new.
           exec (handleMessage m) w s tr
             = (s', tr @ (SendText (userPhone_of m) preparing_notice, send_out w (count is_send tr))
                       # probes @ new, Returned ())
         \<and> warmedUp s'
         \<and> list_all (\<lambda>ev. is_get (fst ev) \<or> is_sleep (fst ev)) probes
         \<and> count is_get probes \<le> 3
         \<and> (\<forall>d. send_out w (count is_send tr) = Resolved d
                \<longrightarrow> (\<exists>rest. probes = (GetHealth, get_out w (count is_get tr)) # rest))
         \<and> (\<forall>e. send_out w (count is_send tr) = Rejected e \<longrightarrow> probes = [])
         \<and> list_all (\<lambda>ev. \<not> is_get (fst ev)) new"
proof -
  let ?n = "(SendText (userPhone_of m) preparing_notice, send_out w (count is_send tr))"
  from exec_warmUp_probe[OF assms(2), of "userPhone_of m" w tr] obtain probes where
    wu: "exec (warmUp (userPhone_of m)) w s tr = (s\<lparr>warmedUp := True\<rparr>, tr @ ?n # probes, Returned ())"
    and all: "list_all (\<lambda>ev. is_get (fst ev) \<or> is_sleep (fst ev)) probes"
    and cnt: "count is_get probes \<le> 3"
    and first: "\<forall>d. send_out w (count is_send tr) = Resolved d
                \<longrightarrow> (\<exists>rest. probes = (GetHealth, get_out w (count is_get tr)) # rest)"
    and skipped: "\<forall>e. send_out w (count is_send tr) = Rejected e \<longrightarrow> probes = []"
    by (elim exE conjE)
  have tb: "exec (handleMessage_try m) w s tr
          = exec (dispatch m (userPhone_of m) (body_of m)) w (s\<lparr>warmedUp := True\<rparr>) (tr @ ?n # probes)"
    using assms(1) wu
    by (simp add: handleMessage_try_def accepted_def exec_bind Let_def)
  obtain s' tr1 r where
    d: "exec (dispatch m (userPhone_of m) (body_of m)) w (s\<lparr>warmedUp := True\<rparr>) (tr @ ?n # probes)
          = (s', tr1, r)"
    by (metis prod_cases3)
  from dispatch_trace[OF d] obtain new where
    tr1: "tr1 = (tr @ ?n # probes) @ new" and new: "list_all (\<lambda>ev. \<not> is_get (fst ev)) new"
    and s': "warmedUp s'"
    by auto
  obtain s2 tr2 where h: "exec (handleMessage m) w s tr = (s2, tr2, Returned ())"
    using handleMessage_returns by blast
  show ?thesis
  proof (cases r)
    case (Thrown e)
    let ?ev = "(SendText (or_else (sender_from m) (js ''unknown'')) unexpected_notice,
                send_out w (count is_send tr1))"
    have "exec (handleMessage m) w s tr = (s', tr @ ?n # probes @ (new @ [?ev]), Returned ())"
      using tb d tr1 Thrown by (simp add: exec_handleMessage)
    moreover have "list_all (\<lambda>ev. \<not> is_get (fst ev)) (new @ [?ev])"
      using new by simp
    ultimately show ?thesis
      using s' all cnt first skipped by blast
  next
    case (Returned u)
    then have "exec (handleMessage m) w s tr = (s', tr @ ?n # probes @ new, Returned ())"
      using tb d tr1 by (simp add: exec_handleMessage)
    then show ?thesis
      using s' all cnt first skipped new by blast
  next
    case Diverged
    then show ?thesis
      using tb d h by (simp add: exec_handleMessage)
  qed
qed

lemma chat_accepted: "accepted (chat (js ''#nivel''))"
  by (simp add: accepted_def msg_eval)

subsection \<open>The warm-up\<close>

text \<open>
  C5, as the code has it. The first message that passes the two filters (not from a group,
  trimmed body not empty), whatever its type and its text, starts the warm-up before any
  command is looked at: the flag is set before the handler first suspends, the notice that
  the teacher is being prepared is the first thing sent, and as soon as that send has been
  accepted the health probe follows (\<^verbatim>\<open>GET /health\<close>, three attempts at most, nothing but
  pauses in between). What the command processing does comes after all of that and makes no
  health request. The send of the notice stands inside the \<^verbatim>\<open>try\<close> around the probe, so a
  rejected notice skips the probe.
\<close>

theorem first_accepted_message_warms_up:
  assumes "accepted m" and "\<not> warmedUp s"
  shows "\<exists>s' probes new k.
           exec (handleMessage m) w s tr
             = (s', tr @ (SendText (userPhone_of m) preparing_notice, send_out w (count is_send tr))
                       # probes @ new, Returned ())
         \<and> warmedUp s'
         \<and> list_all (\<lambda>ev. is_get (fst ev) \<or> is_sleep (fst ev)) probes
         \<and> count is_get probes \<le> 3
         \<and> (\<forall>d. send_out w (count is_send tr) = Resolved d
                \<longrightarrow> (\<exists>rest. probes = (GetHealth, get_out w (count is_get tr)) # rest))
         \<and> (\<forall>e. send_out w (count is_send tr) = Rejected e \<longrightarrow> probes = [])
         \<and> list_all (\<lambda>ev. \<not> is_get (fst ev)) new
         \<and> settle (handleMessage m) s
             = (s\<lparr>warmedUp := True\<rparr>, Await (SendText (userPhone_of m) preparing_notice) k)"
proof -
  from settle_cold[OF assms] obtain k where
    "settle (handleMessage m) s
       = (s\<lparr>warmedUp := True\<rparr>, Await (SendText (userPhone_of m) preparing_notice) k)"
    by blast
  with exec_handleMessage_cold[OF assms, of w tr] show ?thesis
    by (elim exE conjE) (intro exI conjI)
qed

theorem first_accepted_message_warms_up_witness:
  "accepted (chat (js ''#nivel'')) \<and> \<not> warmedUp initial
   \<and> (\<exists>s' rest new k.
         exec (handleMessage (chat (js ''#nivel''))) world_down initial []
           = (s', [] @ (SendText user1 preparing_notice, Resolved NoReply)
                      # ((GetHealth, Rejected (Failure 0)) # rest) @ new, Returned ())
       \<and> warmedUp s'
       \<and> count is_get ((GetHealth, Rejected (Failure 0)) # rest) \<le> 3
       \<and> list_all (\<lambda>ev. \<not> is_get (fst ev)) new
       \<and> settle (handleMessage (chat (js ''#nivel''))) initial
           = (initial\<lparr>warmedUp := True\<rparr>, Await (SendText user1 preparing_notice) k))"
proof -
  have cold: "\<not> warmedUp initial"
    by (simp add: initial_def)
  have u: "userPhone_of (chat (js ''#nivel'')) = user1"
    by (simp add: msg_eval)
  have o: "send_out world_down 0 = Resolved NoReply"
    by (simp add: world_down_def)
  have g: "get_out world_down 0 = Rejected (Failure 0)"
    by (simp add: world_down_def)
  from first_accepted_message_warms_up[OF chat_accepted cold, of world_down "[]"]
  obtain s' probes new k where
    ex: "exec (handleMessage (chat (js ''#nivel''))) world_down initial []
           = (s', [] @ (SendText (userPhone_of (chat (js ''#nivel''))) preparing_notice,
                        send_out world_down (count is_send [])) # probes @ new, Returned ())"
    and s': "warmedUp s'"
    and cnt: "count is_get probes \<le> 3"
    and first: "\<forall>d. send_out world_down (count is_send []) = Resolved d
                \<longrightarrow> (\<exists>rest. probes = (GetHealth, get_out world_down (count is_get [])) # rest)"
    and new: "list_all (\<lambda>ev. \<not> is_get (fst ev)) new"
    and st: "settle (handleMessage (chat (js ''#nivel''))) initial
           = (initial\<lparr>warmedUp := True\<rparr>,
              Await (SendText (userPhone_of (chat (js ''#nivel''))) preparing_notice) k)"
    by (elim exE conjE)
  from first obtain rest where probes: "probes = (GetHealth, Rejected (Failure 0)) # rest"
    by (auto simp: o g)
  have "exec (handleMessage (chat (js ''#nivel''))) world_down initial []
           = (s', [] @ (SendText user1 preparing_notice, Resolved NoReply)
                      # ((GetHealth, Rejected (Failure 0)) # rest) @ new, Returned ())"
    using ex unfolding probes u by (simp add: o)
  moreover have "count is_get ((GetHealth, Rejected (Failure 0)) # rest) \<le> 3"
    using cnt unfolding probes .
  moreover have "settle (handleMessage (chat (js ''#nivel''))) initial
           = (initial\<lparr>warmedUp := True\<rparr>, Await (SendText user1 preparing_notice) k)"
    using st unfolding u .
  ultimately show ?thesis
    using s' new chat_accepted cold by blast
qed

text \<open>
  C5 as it is stated fails for a first message from a group and for a first message with
  an empty body (a voice note without a caption): both are dropped before the warm-up,
  nothing is sent and the flag stays unset.
\<close>

theorem first_message_dropped_counterexample:
  "exec (handleMessage (group_chat (js ''hello''))) world_ok initial [] = (initial, [], Returned ())
   \<and> exec (handleMessage voice_note) world_ok initial [] = (initial, [], Returned ())"
  by (simp add: exec_handleMessage handleMessage_try_def msg_eval)

subsection \<open>Audio messages\<close>

lemma warmed_update [simp]: "warmedUp s \<Longrightarrow> s\<lparr>warmedUp := True\<rparr> = s"
  by simp

text \<open>
  C6, as the code has it. A message that passes the two filters and has the type of a voice
  note or an audio file is answered with the fixed notice that audio is switched off, and
  nothing else is done for it: no POST is ever made, and once the process is warmed up that
  notice is the only event. For the first accepted message the warm-up (its notice and its
  health probe) comes before it.
\<close>

theorem audio_message_gets_the_notice:
  assumes "accepted m" and "is_audio m" and "sends_ok w"
  shows "\<exists>pre. exec (handleMessage m) w s tr
                 = (s\<lparr>warmedUp := True\<rparr>,
                    tr @ pre @ [(SendText (userPhone_of m) audio_notice,
                                 send_out w (count is_send (tr @ pre)))],
                    Returned ())
             \<and> (if warmedUp s then pre = [] else warmup_trace (userPhone_of m) pre)
             \<and> count is_post pre = 0"
proof -
  from exec_handleMessage_try_accepted[OF assms(1), of w s tr] obtain pre where
    tb: "exec (handleMessage_try m) w s tr
            = exec (dispatch m (userPhone_of m) (body_of m)) w (s\<lparr>warmedUp := True\<rparr>) (tr @ pre)"
    and pre: "if warmedUp s then pre = [] else warmup_trace (userPhone_of m) pre"
    by (metis (full_types))
  have "exec (dispatch m (userPhone_of m) (body_of m)) w (s\<lparr>warmedUp := True\<rparr>) (tr @ pre)
          = (s\<lparr>warmedUp := True\<rparr>,
             (tr @ pre) @ [(SendText (userPhone_of m) audio_notice,
                            send_out w (count is_send (tr @ pre)))],
             Returned ())"
    using assms(2,3) by (simp add: dispatch_def is_audio_def exec_sendText_ok)
  with tb have "exec (handleMessage m) w s tr
          = (s\<lparr>warmedUp := True\<rparr>,
             tr @ pre @ [(SendText (userPhone_of m) audio_notice,
                          send_out w (count is_send (tr @ pre)))],
             Returned ())"
    by (simp add: exec_handleMessage)
  moreover have "count is_post pre = 0"
    using pre warmup_trace_counts(1)[of "userPhone_of m" pre] by (cases "warmedUp s") simp_all
  ultimately show ?thesis
    using pre by blast
qed

lemma sends_ok_world_ok: "sends_ok world_ok"
  by (simp add: sends_ok_def world_ok_def)

theorem audio_message_gets_the_notice_witness:
  "accepted (audio_with (js ''oi'')) \<and> is_audio (audio_with (js ''oi'')) \<and> sends_ok world_ok
   \<and> exec (handleMessage (audio_with (js ''oi''))) world_ok warmed []
       = (warmed, [(SendText user1 audio_notice, Resolved NoReply)], Returned ())"
proof -
  have a: "accepted (audio_with (js ''oi''))"
    by (simp add: accepted_def msg_eval)
  have b: "is_audio (audio_with (js ''oi''))"
    by (simp add: is_audio_def msg_eval)
  have u: "userPhone_of (audio_with (js ''oi'')) = user1"
    by (simp add: msg_eval)
  have w: "warmedUp warmed" "send_out world_ok n = Resolved NoReply" for n
    by (simp_all add: warmed_def world_ok_def)
  show ?thesis
    using audio_message_gets_the_notice[OF a b sends_ok_world_ok, of warmed "[]"] a b
      sends_ok_world_ok
    by (simp add: u w)
qed

text \<open>
  C6 as it is stated fails twice: a voice note without a caption has an empty body and is
  dropped without any reply, and an audio message that is the first accepted message is
  answered with two messages, after a GET to the backend.
\<close>

theorem audio_message_counterexample:
  "\<not> isGroupMsg voice_note \<and> mtype voice_note = js ''ptt''
   \<and> exec (handleMessage voice_note) world_ok warmed [] = (warmed, [], Returned ())
   \<and> \<not> isGroupMsg (audio_with (js ''oi'')) \<and> mtype (audio_with (js ''oi'')) = js ''audio''
   \<and> exec (handleMessage (audio_with (js ''oi''))) world_ok initial []
       = (initial\<lparr>warmedUp := True\<rparr>,
          [(SendText user1 preparing_notice, Resolved NoReply),
           (GetHealth, Resolved NoReply),
           (SendText user1 audio_notice, Resolved NoReply)],
          Returned ())"
  by (simp add: exec_handleMessage handleMessage_try_def msg_eval dispatch_def warmUp_def
        initial_def exec_bind exec_try_catch exec_sendText getHealthWithRetry_def
        getHealthWithRetry_loop_step pause_events_def delay_at_def health_delays_def
        world_ok_def)

subsection \<open>The reset command\<close>

lemma ex_less_3: "(\<exists>j<3. P j) \<longleftrightarrow> P 0 \<or> P (Suc 0) \<or> P (Suc (Suc 0))"
proof
  assume "\<exists>j<3. P j"
  then obtain j where "j < 3" "P j" by blast
  then consider "j = 0" | "j = Suc 0" | "j = Suc (Suc 0)"
    by linarith
  then show "P 0 \<or> P (Suc 0) \<or> P (Suc (Suc 0))"
    using \<open>P j\<close> by cases auto
next
  assume "P 0 \<or> P (Suc 0) \<or> P (Suc (Suc 0))"
  then show "\<exists>j<3. P j"
    by (auto intro: exI[of _ 0] exI[of _ "Suc 0"] exI[of _ "Suc (Suc 0)"])
qed

text \<open>The three attempts that the handler allows, in any world.\<close>

lemma postWithRetry_three:
  "\<exists>att r. exec (postWithRetry pathname d 3) w s tr = (s, tr @ att, r)
         \<and> list_all (\<lambda>ev. fst ev = Post pathname d \<or> is_sleep (fst ev)) att
         \<and> 1 \<le> count is_post att \<and> count is_post att \<le> 3 \<and> count is_send att = 0
         \<and> (if \<exists>j<3. \<exists>d'. post_out w (count is_post tr + j) = Resolved d'
            then \<exists>d'. r = Returned d' else \<exists>e. r = Thrown e)"
proof (cases "post_out w (count is_post tr)")
  case (Resolved d0)
  then show ?thesis
    by (intro exI[of _ "[(Post pathname d, Resolved d0)]"] exI[of _ "Returned d0"])
       (simp add: postWithRetry_def postWithRetry_loop_step pause_events_def delay_at_def
          delays_def ex_less_3)
next
  case r0: (Rejected e0)
  show ?thesis
  proof (cases "post_out w (Suc (count is_post tr))")
    case (Resolved d1)
    then show ?thesis
      using r0
      by (intro exI[of _ "[(Post pathname d, Rejected e0), (Sleep 2000, Resolved NoReply),
                            (Post pathname d, Resolved d1)]"] exI[of _ "Returned d1"])
         (simp add: postWithRetry_def postWithRetry_loop_step pause_events_def delay_at_def
            delays_def ex_less_3)
  next
    case r1: (Rejected e1)
    show ?thesis
    proof (cases "post_out w (Suc (Suc (count is_post tr)))")
      case (Resolved d2)
      then show ?thesis
        using r0 r1
        by (intro exI[of _ "[(Post pathname d, Rejected e0), (Sleep 2000, Resolved NoReply),
                              (Post pathname d, Rejected e1), (Sleep 5000, Resolved NoReply),
                              (Post pathname d, Resolved d2)]"] exI[of _ "Returned d2"])
           (simp add: postWithRetry_def postWithRetry_loop_step pause_events_def delay_at_def
              delays_def ex_less_3)
    next
      case r2: (Rejected e2)
      then show ?thesis
        using r0 r1
        by (intro exI[of _ "[(Post pathname d, Rejected e0), (Sleep 2000, Resolved NoReply),
                              (Post pathname d, Rejected e1), (Sleep 5000, Resolved NoReply),
                              (Post pathname d, Rejected e2)]"] exI[of _ "Thrown e2"])
           (simp add: postWithRetry_def postWithRetry_loop_step pause_events_def delay_at_def
              delays_def ex_less_3)
    qed
  qed
qed

lemma within_handleMessage_no_choice:
  assumes "\<not> level_choice m"
  shows "within (\<lambda>a. True) (\<lambda>g. \<forall>s. userLevels (g s) = userLevels s) (handleMessage m)"
proof -
  have "within (\<lambda>a. True) (\<lambda>g. \<forall>s. userLevels (g s) = userLevels s)
          (dispatch m (userPhone_of m) (body_of m))"
    if "accepted m"
  proof (rule within_dispatch)
    assume "\<not> (mtype m = js ''ptt'' \<or> mtype m = js ''audio'')"
      and "body_of m \<in> set [js ''1'', js ''2'', js ''3'', js ''4'']"
    with that assms show "\<forall>s. userLevels (s\<lparr>userLevels := (userLevels s)(userPhone_of m := levelMap (body_of m))\<rparr>)
                  = userLevels s"
      by (simp add: level_choice_def is_audio_def)
  qed simp_all
  then show ?thesis
    by (simp add: handleMessage_def handleMessage_try_def Let_def accepted_def
          within_try_catch within_bind within_warmUp within_sendText)
qed

lemma reset_not_choice:
  assumes "toLowerCase b = js ''#resetar''"
  shows "b \<notin> set [js ''1'', js ''2'', js ''3'', js ''4'']"
    and "toLowerCase b \<noteq> js ''#ajuda''" and "toLowerCase b \<noteq> js ''#nivel''"
  using assms by (auto simp: toLowerCase_def lower_unit_def js_def)

lemma exec_reset:
  assumes "toLowerCase b = js ''#resetar''"
    and "\<not> (mtype m = js ''ptt'' \<or> mtype m = js ''audio'')" and "sends_ok w"
  shows "\<exists>att. exec (dispatch m u b) w s tr
                 = (s, tr @ att @ [(SendText u
                       (if \<exists>j<3. \<exists>d. post_out w (count is_post tr + j) = Resolved d
                        then reset_ok_notice else reset_fail_notice),
                       send_out w (count is_send tr))],
                    Returned ())
             \<and> list_all (\<lambda>ev. fst ev = Post (js ''/resetar'') (ResetReq u) \<or> is_sleep (fst ev)) att
             \<and> 1 \<le> count is_post att \<and> count is_post att \<le> 3 \<and> count is_send att = 0"
proof -
  from postWithRetry_three[of "js ''/resetar''" "ResetReq u" w s tr] obtain att r where
    ex: "exec (postWithRetry (js ''/resetar'') (ResetReq u) 3) w s tr = (s, tr @ att, r)"
    and att: "list_all (\<lambda>ev. fst ev = Post (js ''/resetar'') (ResetReq u) \<or> is_sleep (fst ev)) att"
      "1 \<le> count is_post att" "count is_post att \<le> 3" "count is_send att = 0"
    and r: "if \<exists>j<3. \<exists>d'. post_out w (count is_post tr + j) = Resolved d'
            then \<exists>d'. r = Returned d' else \<exists>e. r = Thrown e"
    by blast
  have d: "dispatch m u b
             = try_catch
                 (bind (postWithRetry (js ''/resetar'') (ResetReq u) 3) (\<lambda>_. sendText u reset_ok_notice))
                 (\<lambda>error. sendText u reset_fail_notice)"
    using assms(1,2) reset_not_choice[OF assms(1)] by (simp add: dispatch_def Let_def)
  have "exec (dispatch m u b) w s tr
          = (s, tr @ att @ [(SendText u
                (if \<exists>j<3. \<exists>d. post_out w (count is_post tr + j) = Resolved d
                 then reset_ok_notice else reset_fail_notice),
                send_out w (count is_send tr))],
             Returned ())"
  proof (cases "\<exists>j<3. \<exists>d'. post_out w (count is_post tr + j) = Resolved d'")
    case True
    with r obtain d' where "r = Returned d'" by auto
    with ex True att(4) assms(3) show ?thesis
      unfolding d by (simp add: exec_try_catch exec_bind exec_sendText_ok)
  next
    case False
    with r obtain e where "r = Thrown e" by auto
    with ex False att(4) assms(3) show ?thesis
      unfolding d by (auto simp: exec_try_catch exec_bind exec_sendText_ok)
  qed
  with att show ?thesis by blast
qed

text \<open>
  C8, as the code has it. A message that passes the two filters, is not audio and whose
  trimmed body is \<^verbatim>\<open>#resetar\<close> in any mix of cases makes the handler POST \<^verbatim>\<open>{ phone }\<close> to
  \<^verbatim>\<open>/resetar\<close>, at most three times, and then send one notice: the confirmation when one of
  the attempts was accepted, the failure notice (a different text) when all three were
  rejected. In no world does handling such a message change the stored level of any user.
\<close>

theorem reset_calls_backend_and_keeps_levels:
  assumes "reset_command m" and "sends_ok w"
  shows "(\<exists>pre att.
            exec (handleMessage m) w s tr
              = (s\<lparr>warmedUp := True\<rparr>,
                 tr @ pre @ att @ [(SendText (userPhone_of m)
                     (if \<exists>j<3. \<exists>d. post_out w (count is_post tr + j) = Resolved d
                      then reset_ok_notice else reset_fail_notice),
                     send_out w (count is_send (tr @ pre)))],
                 Returned ())
          \<and> (if warmedUp s then pre = [] else warmup_trace (userPhone_of m) pre)
          \<and> list_all (\<lambda>ev. fst ev = Post (js ''/resetar'') (ResetReq (userPhone_of m))
                            \<or> is_sleep (fst ev)) att
          \<and> 1 \<le> count is_post att \<and> count is_post att \<le> 3)
       \<and> (\<forall>w' (s0::state) tr0 s' tr' r.
             exec (handleMessage m) w' s0 tr0 = (s', tr', r) \<longrightarrow> userLevels s' = userLevels s0)
       \<and> reset_ok_notice \<noteq> reset_fail_notice"
proof (intro conjI allI impI)
  have acc: "accepted m" and na: "\<not> (mtype m = js ''ptt'' \<or> mtype m = js ''audio'')"
    and lo: "toLowerCase (body_of m) = js ''#resetar''"
    using assms(1) by (simp_all add: reset_command_def is_audio_def)
  from exec_handleMessage_try_accepted[OF acc, of w s tr] obtain pre where
    tb: "exec (handleMessage_try m) w s tr
            = exec (dispatch m (userPhone_of m) (body_of m)) w (s\<lparr>warmedUp := True\<rparr>) (tr @ pre)"
    and pre: "if warmedUp s then pre = [] else warmup_trace (userPhone_of m) pre"
    by (metis (full_types))
  have cnt: "count is_post (tr @ pre) = count is_post tr"
    using pre warmup_trace_counts(1)[of "userPhone_of m" pre] by (cases "warmedUp s") simp_all
  from exec_reset[OF lo na assms(2), of "userPhone_of m" "s\<lparr>warmedUp := True\<rparr>" "tr @ pre"]
  obtain att where
    d: "exec (dispatch m (userPhone_of m) (body_of m)) w (s\<lparr>warmedUp := True\<rparr>) (tr @ pre)
          = (s\<lparr>warmedUp := True\<rparr>,
             (tr @ pre) @ att @ [(SendText (userPhone_of m)
                 (if \<exists>j<3. \<exists>d. post_out w (count is_post tr + j) = Resolved d
                  then reset_ok_notice else reset_fail_notice),
                 send_out w (count is_send (tr @ pre)))],
             Returned ())"
    and att: "list_all (\<lambda>ev. fst ev = Post (js ''/resetar'') (ResetReq (userPhone_of m))
                            \<or> is_sleep (fst ev)) att"
      "1 \<le> count is_post att" "count is_post att \<le> 3"
    unfolding cnt by blast
  have "exec (handleMessage m) w s tr
          = (s\<lparr>warmedUp := True\<rparr>,
             tr @ pre @ att @ [(SendText (userPhone_of m)
                 (if \<exists>j<3. \<exists>d. post_out w (count is_post tr + j) = Resolved d
                  then reset_ok_notice else reset_fail_notice),
                 send_out w (count is_send (tr @ pre)))],
             Returned ())"
    using tb d by (simp add: exec_handleMessage)
  with pre att show "\<exists>pre att.
            exec (handleMessage m) w s tr
              = (s\<lparr>warmedUp := True\<rparr>,
                 tr @ pre @ att @ [(SendText (userPhone_of m)
                     (if \<exists>j<3. \<exists>d. post_out w (count is_post tr + j) = Resolved d
                      then reset_ok_notice else reset_fail_notice),
                     send_out w (count is_send (tr @ pre)))],
                 Returned ())
          \<and> (if warmedUp s then pre = [] else warmup_trace (userPhone_of m) pre)
          \<and> list_all (\<lambda>ev. fst ev = Post (js ''/resetar'') (ResetReq (userPhone_of m))
                            \<or> is_sleep (fst ev)) att
          \<and> 1 \<le> count is_post att \<and> count is_post att \<le> 3"
    by blast
next
  fix w' and s0 :: state and tr0 s' tr' r
  assume ex: "exec (handleMessage m) w' s0 tr0 = (s', tr', r)"
  have "\<not> level_choice m"
    using assms(1) reset_not_choice(1)[of "body_of m"]
    by (simp add: reset_command_def level_choice_def)
  from exec_frame[OF within_handleMessage_no_choice[OF this] ex]
  show "userLevels s' = userLevels s0" .
next
  show "reset_ok_notice \<noteq> reset_fail_notice"
    by (simp add: reset_ok_notice_def reset_fail_notice_def)
qed

lemma sends_ok_world_down: "sends_ok world_down"
  by (simp add: sends_ok_def world_down_def)

theorem reset_calls_backend_and_keeps_levels_witness:
  "reset_command (chat (js ''#Resetar'')) \<and> sends_ok world_down
   \<and> (\<exists>att. exec (handleMessage (chat (js ''#Resetar''))) world_down warmed []
               = (warmed, att @ [(SendText user1 reset_fail_notice, Resolved NoReply)], Returned ())
           \<and> list_all (\<lambda>ev. fst ev = Post (js ''/resetar'') (ResetReq user1) \<or> is_sleep (fst ev)) att
           \<and> 1 \<le> count is_post att)
   \<and> exec (handleMessage (chat (js ''#Resetar''))) world_ok warmed []
       = (warmed,
          [(Post (js ''/resetar'') (ResetReq user1), Resolved NoReply),
           (SendText user1 reset_ok_notice, Resolved NoReply)],
          Returned ())
   \<and> userLevels (fst (exec (handleMessage (chat (js ''#Resetar''))) world_ok warmed []))
       = userLevels warmed"
proof -
  have a: "reset_command (chat (js ''#Resetar''))"
    by (simp add: reset_command_def accepted_def is_audio_def msg_eval)
  have u: "userPhone_of (chat (js ''#Resetar'')) = user1"
    by (simp add: msg_eval)
  have w: "warmedUp warmed" "send_out world_down n = Resolved NoReply"
    "post_out world_down n = Rejected (Failure n)" for n
    by (simp_all add: warmed_def world_down_def)
  note inst = reset_calls_backend_and_keeps_levels[OF a sends_ok_world_down, of warmed "[]"]
  from inst have
    "\<exists>pre att.
        exec (handleMessage (chat (js ''#Resetar''))) world_down warmed []
          = (warmed\<lparr>warmedUp := True\<rparr>,
             [] @ pre @ att @ [(SendText (userPhone_of (chat (js ''#Resetar'')))
                 (if \<exists>j<3. \<exists>d. post_out world_down (count is_post [] + j) = Resolved d
                  then reset_ok_notice else reset_fail_notice),
                 send_out world_down (count is_send ([] @ pre)))],
             Returned ())
      \<and> (if warmedUp warmed then pre = [] else warmup_trace (userPhone_of (chat (js ''#Resetar''))) pre)
      \<and> list_all (\<lambda>ev. fst ev = Post (js ''/resetar'') (ResetReq (userPhone_of (chat (js ''#Resetar''))))
                        \<or> is_sleep (fst ev)) att
      \<and> 1 \<le> count is_post att \<and> count is_post att \<le> 3"
    by blast
  then have p1: "\<exists>att. exec (handleMessage (chat (js ''#Resetar''))) world_down warmed []
               = (warmed, att @ [(SendText user1 reset_fail_notice, Resolved NoReply)], Returned ())
           \<and> list_all (\<lambda>ev. fst ev = Post (js ''/resetar'') (ResetReq user1) \<or> is_sleep (fst ev)) att
           \<and> 1 \<le> count is_post att"
    by (simp add: u w ex_less_3) blast
  have p2: "exec (handleMessage (chat (js ''#Resetar''))) world_ok warmed []
       = (warmed,
          [(Post (js ''/resetar'') (ResetReq user1), Resolved NoReply),
           (SendText user1 reset_ok_notice, Resolved NoReply)],
          Returned ())"
    by (simp add: exec_handleMessage handleMessage_try_def msg_eval dispatch_def exec_bind
          exec_try_catch exec_warmUp_warm exec_sendText warmed_def world_ok_def
          postWithRetry_def postWithRetry_loop_step pause_events_def delay_at_def delays_def)
  have p3: "userLevels (fst (exec (handleMessage (chat (js ''#Resetar''))) world_ok warmed []))
       = userLevels warmed"
    by (simp add: p2)
  from a sends_ok_world_down p1 p2 p3 show ?thesis
    by blast
qed

text \<open>
  C8 as it is stated fails for a message from a group and for an audio message: with the
  body \<^verbatim>\<open>#resetar\<close> the first is dropped and the second gets the audio notice, and neither
  reaches the backend.
\<close>

theorem reset_counterexample:
  "toLowerCase (body_of (group_chat (js ''#resetar''))) = js ''#resetar''
   \<and> exec (handleMessage (group_chat (js ''#resetar''))) world_ok warmed [] = (warmed, [], Returned ())
   \<and> toLowerCase (body_of (audio_with (js ''#resetar''))) = js ''#resetar''
   \<and> exec (handleMessage (audio_with (js ''#resetar''))) world_ok warmed []
       = (warmed, [(SendText user1 audio_notice, Resolved NoReply)], Returned ())"
  by (simp add: exec_handleMessage handleMessage_try_def msg_eval dispatch_def exec_bind
        exec_warmUp_warm exec_sendText warmed_def world_ok_def)

subsection \<open>When every attempt fails\<close>

lemma postWithRetry_exhausted:
  assumes "\<forall>j<tries. post_out w (count is_post tr + j) = Rejected (err j)" and "0 < tries"
  shows "\<exists>new. exec (postWithRetry pathname d tries) w s tr
                 = (s, tr @ new, Thrown (err (tries - 1)))
             \<and> count is_post new = tries \<and> count is_send new = 0"
  using postWithRetry_loop_exhausted[OF assms(1), of 0 tries pathname d Undefined s] assms(2)
  by (auto simp: postWithRetry_def)

lemma exec_default_exhausted:
  assumes "default_path m" and "sends_ok w"
    and "\<forall>j<3. post_out w (count is_post tr + j) = Rejected (err j)"
  shows "\<exists>att. exec (dispatch m (userPhone_of m) (body_of m)) w s tr
                 = (s, tr @ att @ [(SendText (userPhone_of m) backend_fail_notice,
                                    send_out w (count is_send tr))], Returned ())
             \<and> count is_post att = 3 \<and> count is_send att = 0"
proof -
  let ?u = "userPhone_of m"
  let ?pl = "CorrectReq (body_of m) (or_else (userLevels s ?u) (js ''basic'')) ?u"
  from postWithRetry_exhausted[OF assms(3), of "js ''/correct''" ?pl s] obtain att where
    ex: "exec (postWithRetry (js ''/correct'') ?pl 3) w s tr = (s, tr @ att, Thrown (err (3 - 1)))"
    and att: "count is_post att = 3" "count is_send att = 0"
    by auto
  have "exec (dispatch m ?u (body_of m)) w s tr
          = (s, tr @ att @ [(SendText ?u backend_fail_notice, send_out w (count is_send tr))],
             Returned ())"
    using assms(1,2) ex att(2)
    by (simp add: default_path_def is_audio_def dispatch_def Let_def exec_bind exec_try_catch
          exec_sendText_ok)
  with att show ?thesis by blast
qed

lemma exec_reset_exhausted:
  assumes "reset_command m" and "sends_ok w"
    and "\<forall>j<3. post_out w (count is_post tr + j) = Rejected (err j)"
  shows "\<exists>att. exec (dispatch m (userPhone_of m) (body_of m)) w s tr
                 = (s, tr @ att @ [(SendText (userPhone_of m) reset_fail_notice,
                                    send_out w (count is_send tr))], Returned ())
             \<and> count is_post att = 3 \<and> count is_send att = 0"
proof -
  let ?u = "userPhone_of m"
  have lo: "toLowerCase (body_of m) = js ''#resetar''"
    and na: "\<not> (mtype m = js ''ptt'' \<or> mtype m = js ''audio'')"
    using assms(1) by (simp_all add: reset_command_def is_audio_def)
  from postWithRetry_exhausted[OF assms(3), of "js ''/resetar''" "ResetReq ?u" s] obtain att where
    ex: "exec (postWithRetry (js ''/resetar'') (ResetReq ?u) 3) w s tr
           = (s, tr @ att, Thrown (err (3 - 1)))"
    and att: "count is_post att = 3" "count is_send att = 0"
    by auto
  have "exec (dispatch m ?u (body_of m)) w s tr
          = (s, tr @ att @ [(SendText ?u reset_fail_notice, send_out w (count is_send tr))],
             Returned ())"
    using na lo reset_not_choice[OF lo] assms(2) ex att(2)
    by (simp add: dispatch_def Let_def exec_bind exec_try_catch exec_sendText_ok)
  with att show ?thesis by blast
qed

lemma annotate_not_failure:
  assumes "annotate r = backend_fail_notice \<or> annotate r = reset_fail_notice"
  shows "annotate r = r"
proof -
  have "banner_correct @ r \<noteq> backend_fail_notice" "banner_incorrect @ r \<noteq> backend_fail_notice"
    "banner_correct @ r \<noteq> reset_fail_notice" "banner_incorrect @ r \<noteq> reset_fail_notice"
    by (simp_all add: banner_correct_def banner_incorrect_def backend_fail_notice_def
          reset_fail_notice_def)
  with assms show ?thesis
    by (auto simp: annotate_def split: if_splits)
qed

lemma failure_notices_distinct:
  "backend_fail_notice \<notin> set fixed_texts" "reset_fail_notice \<notin> set fixed_texts"
  by (simp_all add: fixed_texts_def backend_fail_notice_def reset_fail_notice_def
        preparing_notice_def audio_notice_def helpMessage_def levelMsg_def reset_ok_notice_def
        fallback_reply_def level_confirmation_def level_prefix_def)

text \<open>
  C2. When all \<open>tries\<close> requests of \<open>postWithRetry\<close> are rejected, it raises the error of
  the last one. The handler, which allows three attempts at both of its call sites, then
  sends exactly one notice, the failure notice of that call site, and returns normally.
  Neither failure notice is one of the texts the handler sends when nothing has failed,
  and the banner step cannot produce one from a reply that is a different text.
\<close>

theorem exhausted_retries_become_one_failure_notice:
  assumes "\<forall>j<tries. post_out w (count is_post tr + j) = Rejected (err j)" and "0 < tries"
  shows "(\<exists>new. exec (postWithRetry pathname d tries) w s tr
                  = (s, tr @ new, Thrown (err (tries - 1)))
              \<and> count is_post new = tries)
       \<and> (tries = 3 \<and> sends_ok w \<and> (default_path m \<or> reset_command m) \<longrightarrow>
            (\<exists>pre att.
               exec (handleMessage m) w s tr
                 = (s\<lparr>warmedUp := True\<rparr>,
                    tr @ pre @ att
                       @ [(SendText (userPhone_of m)
                             (if default_path m then backend_fail_notice else reset_fail_notice),
                           send_out w (count is_send (tr @ pre)))],
                    Returned ())
             \<and> (if warmedUp s then pre = [] else warmup_trace (userPhone_of m) pre)
             \<and> count is_post att = 3 \<and> count is_send att = 0))
       \<and> backend_fail_notice \<notin> set fixed_texts \<and> reset_fail_notice \<notin> set fixed_texts
       \<and> (\<forall>r. annotate r = backend_fail_notice \<or> annotate r = reset_fail_notice
                 \<longrightarrow> annotate r = r)"
proof (intro conjI impI allI)
  show "\<exists>new. exec (postWithRetry pathname d tries) w s tr
                  = (s, tr @ new, Thrown (err (tries - 1)))
              \<and> count is_post new = tries"
    using postWithRetry_exhausted[OF assms, of pathname d s] by blast
next
  assume h: "tries = 3 \<and> sends_ok w \<and> (default_path m \<or> reset_command m)"
  let ?u = "userPhone_of m"
  let ?n = "if default_path m then backend_fail_notice else reset_fail_notice"
  have acc: "accepted m"
    using h by (auto simp: default_path_def reset_command_def)
  from exec_handleMessage_try_accepted[OF acc, of w s tr] obtain pre where
    tb: "exec (handleMessage_try m) w s tr
            = exec (dispatch m ?u (body_of m)) w (s\<lparr>warmedUp := True\<rparr>) (tr @ pre)"
    and pre: "if warmedUp s then pre = [] else warmup_trace ?u pre"
    by (metis (full_types))
  have cp: "count is_post pre = 0"
    using pre warmup_trace_counts(1)[of ?u pre] by (cases "warmedUp s") simp_all
  have rej: "\<forall>j<3. post_out w (count is_post (tr @ pre) + j) = Rejected (err j)"
    using assms(1) h by (simp add: cp)
  have "\<exists>att. exec (dispatch m ?u (body_of m)) w (s\<lparr>warmedUp := True\<rparr>) (tr @ pre)
                 = (s\<lparr>warmedUp := True\<rparr>,
                    (tr @ pre) @ att @ [(SendText ?u ?n, send_out w (count is_send (tr @ pre)))],
                    Returned ())
             \<and> count is_post att = 3 \<and> count is_send att = 0"
  proof (cases "default_path m")
    case True
    from exec_default_exhausted[OF True _ rej, of "s\<lparr>warmedUp := True\<rparr>"] h True
    show ?thesis by simp
  next
    case False
    with h have "reset_command m" by blast
    from exec_reset_exhausted[OF this _ rej, of "s\<lparr>warmedUp := True\<rparr>"] h False
    show ?thesis by simp
  qed
  then obtain att where
    d: "exec (dispatch m ?u (body_of m)) w (s\<lparr>warmedUp := True\<rparr>) (tr @ pre)
          = (s\<lparr>warmedUp := True\<rparr>,
             (tr @ pre) @ att @ [(SendText ?u ?n, send_out w (count is_send (tr @ pre)))],
             Returned ())"
    and att: "count is_post att = 3" "count is_send att = 0"
    by blast
  have "exec (handleMessage m) w s tr
          = (s\<lparr>warmedUp := True\<rparr>,
             tr @ pre @ att @ [(SendText ?u ?n, send_out w (count is_send (tr @ pre)))],
             Returned ())"
    using tb d by (simp add: exec_handleMessage)
  with pre att show "\<exists>pre att.
               exec (handleMessage m) w s tr
                 = (s\<lparr>warmedUp := True\<rparr>,
                    tr @ pre @ att @ [(SendText ?u ?n, send_out w (count is_send (tr @ pre)))],
                    Returned ())
             \<and> (if warmedUp s then pre = [] else warmup_trace ?u pre)
             \<and> count is_post att = 3 \<and> count is_send att = 0"
    by blast
next
  show "backend_fail_notice \<notin> set fixed_texts"
    by (rule failure_notices_distinct(1))
  show "reset_fail_notice \<notin> set fixed_texts"
    by (rule failure_notices_distinct(2))
next
  fix r
  assume "annotate r = backend_fail_notice \<or> annotate r = reset_fail_notice"
  then show "annotate r = r"
    by (rule annotate_not_failure)
qed

theorem exhausted_retries_become_one_failure_notice_witness:
  "post_out world_down (count is_post [] + 0) = Rejected (Failure 0)
   \<and> post_out world_down (count is_post [] + 1) = Rejected (Failure 1)
   \<and> post_out world_down (count is_post [] + 2) = Rejected (Failure 2)
   \<and> sends_ok world_down \<and> default_path (chat (js ''I go school yesterday''))
   \<and> (\<exists>new. exec (postWithRetry (js ''/correct'') (ResetReq user1) 3) world_down warmed []
                = (warmed, [] @ new, Thrown (Failure 2))
            \<and> count is_post new = 3)
   \<and> (\<exists>att. exec (handleMessage (chat (js ''I go school yesterday''))) world_down warmed []
                = (warmed, att @ [(SendText user1 backend_fail_notice, Resolved NoReply)],
                   Returned ())
            \<and> count is_post att = 3 \<and> count is_send att = 0)"
proof -
  have rej: "\<forall>j<3. post_out world_down (count is_post [] + j) = Rejected (Failure j)"
    by (simp add: world_down_def)
  have dp: "default_path (chat (js ''I go school yesterday''))"
    by (simp add: default_path_def accepted_def is_audio_def msg_eval)
  have u: "userPhone_of (chat x) = user1" for x
    by (simp add: msg_eval)
  have w: "warmedUp warmed" "send_out world_down n = Resolved NoReply"
    "post_out world_down n = Rejected (Failure n)" for n
    by (simp_all add: warmed_def world_down_def)
  note inst = exhausted_retries_become_one_failure_notice[OF rej zero_less_numeral, of "js ''/correct''"
      "ResetReq user1" warmed "chat (js ''I go school yesterday'')"]
  from inst have p1: "\<exists>new. exec (postWithRetry (js ''/correct'') (ResetReq user1) 3) world_down warmed []
                = (warmed, [] @ new, Thrown (Failure 2))
            \<and> count is_post new = 3"
    by simp
  from inst dp sends_ok_world_down have
    "\<exists>pre att.
       exec (handleMessage (chat (js ''I go school yesterday''))) world_down warmed []
         = (warmed\<lparr>warmedUp := True\<rparr>,
            [] @ pre @ att
               @ [(SendText (userPhone_of (chat (js ''I go school yesterday'')))
                     (if default_path (chat (js ''I go school yesterday''))
                      then backend_fail_notice else reset_fail_notice),
                   send_out world_down (count is_send ([] @ pre)))],
            Returned ())
     \<and> (if warmedUp warmed then pre = []
         else warmup_trace (userPhone_of (chat (js ''I go school yesterday''))) pre)
     \<and> count is_post att = 3 \<and> count is_send att = 0"
    by blast
  then have p2: "\<exists>att. exec (handleMessage (chat (js ''I go school yesterday''))) world_down warmed []
                = (warmed, att @ [(SendText user1 backend_fail_notice, Resolved NoReply)],
                   Returned ())
            \<and> count is_post att = 3 \<and> count is_send att = 0"
    by (simp add: u w dp)
  from p1 p2 dp sends_ok_world_down show ?thesis
    by (simp add: w)
qed

subsection \<open>The warm-up happens once\<close>

lemma handle_events_warm:
  assumes "warmedUp s" and "exec (handleMessage m) w s tr = (s', tr', r)"
  shows "warmedUp s' \<and> \<not> probes (drop (length tr) tr') \<and> count is_get tr' = count is_get tr"
proof (cases "accepted m")
  case True
  from exec_handleMessage_accepted[OF True, of w s tr] assms obtain new where
    "tr' = tr @ new" "warmedUp s'" "list_all (\<lambda>ev. \<not> is_get (fst ev)) new"
    by auto
  moreover from this(3) have "\<not> probes new" "count is_get new = 0"
    by (induction new) (simp_all add: probes_def)
  ultimately show ?thesis
    by simp
next
  case False
  then show ?thesis
    using assms by (simp add: exec_handleMessage_dropped probes_def)
qed

lemma handle_events_cold:
  assumes "exec (handleMessage m) w s tr = (s', tr', r)"
  shows "(s' = s \<and> tr' = tr) \<or> (warmedUp s' \<and> count is_get tr' \<le> count is_get tr + 3)"
proof (cases "accepted m")
  case True
  from exec_handleMessage_accepted[OF True, of w s tr] assms obtain pre new where
    tr': "tr' = tr @ pre @ new" and s': "warmedUp s'"
    and pre: "if warmedUp s then pre = []
              else warmup_trace (userPhone_of m) pre \<and> snd (hd pre) = send_out w (count is_send tr)"
    and new: "list_all (\<lambda>ev. \<not> is_get (fst ev)) new"
    by auto
  from new have "count is_get new = 0"
    by (induction new) simp_all
  moreover have "count is_get pre \<le> 3"
  proof (cases "warmedUp s")
    case True
    with pre show ?thesis by simp
  next
    case False
    with pre obtain ev rest where "pre = ev # rest" "fst ev = SendText (userPhone_of m) preparing_notice"
      "count is_get rest \<le> 3"
      by (auto simp: warmup_trace_def split: list.splits)
    then show ?thesis by simp
  qed
  ultimately show ?thesis
    using tr' s' by simp
next
  case False
  then show ?thesis
    using assms by (simp add: exec_handleMessage_dropped)
qed

lemma run_events_warm:
  assumes "warmedUp s"
  shows "filter probes (run_events ms w s tr) = []
       \<and> count is_get (snd (run ms w s tr)) = count is_get tr"
  using assms
proof (induction ms arbitrary: s tr)
  case Nil
  show ?case by simp
next
  case (Cons m ms)
  obtain s1 tr1 r where ex: "exec (handleMessage m) w s tr = (s1, tr1, r)"
    by (metis prod_cases3)
  from handle_events_warm[OF Cons.prems ex] Cons.IH[of s1 tr1] ex show ?case
    by simp
qed

lemma run_events_any:
  "length (filter probes (run_events ms w s tr)) \<le> 1
   \<and> count is_get (snd (run ms w s tr)) \<le> count is_get tr + 3"
proof (induction ms arbitrary: s tr)
  case Nil
  show ?case by simp
next
  case (Cons m ms)
  obtain s1 tr1 r where ex: "exec (handleMessage m) w s tr = (s1, tr1, r)"
    by (metis prod_cases3)
  from handle_events_cold[OF ex] show ?case
  proof
    assume "s1 = s \<and> tr1 = tr"
    then show ?thesis
      using ex Cons.IH[of s tr] by (simp add: probes_def)
  next
    assume a: "warmedUp s1 \<and> count is_get tr1 \<le> count is_get tr + 3"
    then show ?thesis
      using ex run_events_warm[of s1 ms w tr1] by simp
  qed
qed

text \<open>Invariants of the globals up to a suspension.\<close>

lemma settle_invariant:
  assumes "within A (\<lambda>g. \<forall>s. I s \<longrightarrow> I (g s)) p" and "I s" and "settle p s = (s', p')"
  shows "I s'"
  using assms
proof (induction p arbitrary: s)
  case (Read k)
  from Read.prems have "within A (\<lambda>g. \<forall>s. I s \<longrightarrow> I (g s)) (k s)" and "settle (k s) s = (s', p')"
    by simp_all
  from Read.IH[OF rangeI this(1) Read.prems(2) this(2)] show ?case .
next
  case (Update g p)
  from Update.prems have "within A (\<lambda>g. \<forall>s. I s \<longrightarrow> I (g s)) p" and "I (g s)"
    and "settle p (g s) = (s', p')"
    by simp_all
  from Update.IH[OF this] show ?case .
qed auto

lemma settle_within:
  assumes "within A U p" and "settle p s = (s', p')"
  shows "within A U p'"
  using assms
proof (induction p arbitrary: s)
  case (Read k)
  from Read.prems have "within A U (k s)" and "settle (k s) s = (s', p')"
    by simp_all
  from Read.IH[OF rangeI this] show ?case .
next
  case (Update g p)
  from Update.prems have "within A U p" and "settle p (g s) = (s', p')"
    by simp_all
  from Update.IH[OF this] show ?case .
qed auto

text \<open>No assignment of the handler unsets the flag.\<close>

lemma handleMessage_keeps_flag:
  "within (\<lambda>a. True) (\<lambda>g. \<forall>s. warmedUp s \<longrightarrow> warmedUp (g s)) (handleMessage m)"
proof -
  have "within (\<lambda>a. True) (\<lambda>g. \<forall>s. warmedUp s \<longrightarrow> warmedUp (g s))
          (dispatch m (userPhone_of m) (body_of m))"
    by (rule within_dispatch) simp_all
  then show ?thesis
    by (simp add: handleMessage_def handleMessage_try_def Let_def
          within_try_catch within_bind within_warmUp within_sendText)
qed

lemma settle_dropped:
  "\<not> accepted m \<Longrightarrow> settle (handleMessage m) s = (s, Return ())"
  by (auto simp: handleMessage_def handleMessage_try_def accepted_def Let_def)

lemma settle_flag:
  assumes "settle (handleMessage m) s = (s', p)"
  shows "warmedUp s' \<or> (s' = s \<and> p = Return ())"
proof (cases "accepted m")
  case False
  then show ?thesis
    using assms by (simp add: settle_dropped)
next
  case True
  show ?thesis
  proof (cases "warmedUp s")
    case True
    from settle_invariant[OF handleMessage_keeps_flag True assms] show ?thesis
      by simp
  next
    case False
    from settle_cold[OF \<open>accepted m\<close> False] assms show ?thesis
      by auto
  qed
qed

subsection \<open>Handlers that overlap\<close>

lemma quiet_tame: "quiet p \<Longrightarrow> tame p"
  unfolding quiet_def tame_def by (rule within_mono) simp_all

lemma tame_settle:
  assumes "tame p" and "settle p s = (s', p')"
  shows "tame p'" and "warmedUp s \<Longrightarrow> warmedUp s'"
  using assms settle_within[of "\<lambda>a. True" _ p s s' p']
    settle_invariant[of "\<lambda>a. True" warmedUp p s s' p']
  by (simp_all add: tame_def)

lemma quiet_settle:
  assumes "quiet p" and "settle p s = (s', p')"
  shows "quiet p'"
  using assms settle_within[of "\<lambda>a. \<not> is_get a" _ p s s' p']
  by (simp add: quiet_def)

lemma quiet_waiting: "quiet p \<Longrightarrow> x \<in> set (waiting_for i p) \<Longrightarrow> \<not> is_get (snd x)"
  by (cases p) (auto simp: waiting_for_def quiet_def)

lemma waiting_index: "x \<in> set (waiting_for i p) \<Longrightarrow> fst x = i"
  by (cases p) (auto simp: waiting_for_def)

lemma tame_handleMessage: "tame (handleMessage m)"
  unfolding tame_def by (rule handleMessage_keeps_flag)

lemma settle_warm_quiet:
  assumes "warmedUp s" and "settle (handleMessage m) s = (s', p')"
  shows "quiet p'"
proof (cases "accepted m")
  case False
  then show ?thesis
    using assms by (auto simp: settle_dropped quiet_def)
next
  case True
  let ?h = "\<lambda>e. let userPhone = or_else (sender_from m) (js ''unknown'')
                 in try_catch (sendText userPhone unexpected_notice) (\<lambda>_. Return ())"
  have eq: "settle (handleMessage m) s
              = settle (try_catch (dispatch m (userPhone_of m) (body_of m)) ?h) s"
    using True assms(1)
    by (simp add: handleMessage_def handleMessage_try_def accepted_def Let_def warmUp_def)
  have "within (\<lambda>a. \<not> is_get a) (\<lambda>g. \<forall>s. warmedUp s \<longrightarrow> warmedUp (g s))
          (dispatch m (userPhone_of m) (body_of m))"
    by (rule within_dispatch) simp_all
  then have "quiet (try_catch (dispatch m (userPhone_of m) (body_of m)) ?h)"
    by (simp add: quiet_def Let_def within_try_catch within_sendText)
  from quiet_settle[OF this] assms(2) eq show ?thesis
    by simp
qed

lemma resume_tasks:
  assumes "i \<le> length (tasks sys)" and "settle p (globals sys) = (s', p')"
  shows "globals (resume sys i p) = s'"
    and "issued (resume sys i p) = issued sys @ waiting_for i p'"
    and "length (tasks (resume sys i p)) = (if i < length (tasks sys) then length (tasks sys)
                                            else Suc (length (tasks sys)))"
    and "j < length (tasks (resume sys i p))
         \<Longrightarrow> tasks (resume sys i p) ! j = (if j = i then p' else tasks sys ! j)"
  using assms by (auto simp: resume_def nth_append)

lemma resume_quiet:
  assumes "only_prober t sys" and "tame p" and "i \<le> length (tasks sys)"
    and "settle p (globals sys) = (s', p')" and "quiet p'"
  shows "only_prober t (resume sys i p)"
proof -
  note r = resume_tasks[OF assms(3,4)]
  have cold: "\<not> warmedUp (globals sys)" if "\<not> warmedUp s'"
    using that tame_settle(2)[OF assms(2,4)] by blast
  show ?thesis
    unfolding only_prober_def
  proof (intro conjI allI impI ballI)
    fix j assume j: "j < length (tasks (resume sys i p))"
    show "tame (tasks (resume sys i p) ! j)"
      using j assms(1,3,5) r(3) quiet_tame[OF assms(5)]
      by (auto simp: r(4)[OF j] only_prober_def split: if_splits)
    show "quiet (tasks (resume sys i p) ! j)" if "j \<noteq> t"
      using j that assms(1,3,5) r(3)
      by (auto simp: r(4)[OF j] only_prober_def split: if_splits)
  next
    fix x assume "x \<in> set (issued (resume sys i p))" and "is_get (snd x)"
    then show "fst x = t"
      using assms(1) quiet_waiting[OF assms(5), of x i]
      by (auto simp: r(2) only_prober_def)
  next
    fix j assume "\<not> warmedUp (globals (resume sys i p))"
      and j: "j < length (tasks (resume sys i p))"
    then have "\<not> warmedUp (globals sys)"
      using cold by (simp add: r(1))
    then show "quiet (tasks (resume sys i p) ! j)"
      using j assms(1,3,5) r(3)
      by (auto simp: r(4)[OF j] only_prober_def split: if_splits)
  next
    fix x assume "\<not> warmedUp (globals (resume sys i p))"
      and x: "x \<in> set (issued (resume sys i p))"
    then have "\<not> warmedUp (globals sys)"
      using cold by (simp add: r(1))
    then show "\<not> is_get (snd x)"
      using x assms(1) quiet_waiting[OF assms(5), of x i]
      by (auto simp: r(2) only_prober_def)
  qed
qed

lemma resume_prober:
  assumes "only_prober t sys" and "tame p" and "t < length (tasks sys)"
    and "\<not> warmedUp (globals sys) \<Longrightarrow> quiet p"
  shows "only_prober t (resume sys t p)"
proof -
  obtain s' p' where st: "settle p (globals sys) = (s', p')"
    by (metis prod.exhaust)
  show ?thesis
  proof (cases "warmedUp (globals sys)")
    case False
    from quiet_settle[OF assms(4)[OF False] st] have "quiet p'" .
    from resume_quiet[OF assms(1,2) _ st this] assms(3) show ?thesis
      by simp
  next
    case True
    have le: "t \<le> length (tasks sys)"
      using assms(3) by simp
    note r = resume_tasks[OF le st]
    have warm: "warmedUp s'"
      using tame_settle(2)[OF assms(2) st] True by simp
    show ?thesis
      unfolding only_prober_def
    proof (intro conjI allI impI ballI)
      fix j assume j: "j < length (tasks (resume sys t p))"
      show "tame (tasks (resume sys t p) ! j)"
        using j assms(1,3) r(3) tame_settle(1)[OF assms(2) st]
        by (auto simp: r(4)[OF j] only_prober_def split: if_splits)
      show "quiet (tasks (resume sys t p) ! j)" if "j \<noteq> t"
        using j that assms(1,3) r(3)
        by (auto simp: r(4)[OF j] only_prober_def split: if_splits)
    next
      fix x assume "x \<in> set (issued (resume sys t p))" and "is_get (snd x)"
      then show "fst x = t"
        using assms(1) waiting_index[of x t p']
        by (auto simp: r(2) only_prober_def)
    next
      fix j assume "\<not> warmedUp (globals (resume sys t p))"
      then show "quiet (tasks (resume sys t p) ! j)"
        using warm by (simp add: r(1))
    next
      fix x assume "\<not> warmedUp (globals (resume sys t p))"
      then show "\<not> is_get (snd x)"
        using warm by (simp add: r(1))
    qed
  qed
qed

lemma resume_first:
  assumes "only_prober t sys" and "\<not> warmedUp (globals sys)" and "tame p"
    and "settle p (globals sys) = (s', p')" and "warmedUp s'"
  shows "only_prober (length (tasks sys)) (resume sys (length (tasks sys)) p)"
proof -
  let ?n = "length (tasks sys)"
  note r = resume_tasks[OF order_refl assms(4)]
  show ?thesis
    unfolding only_prober_def
  proof (intro conjI allI impI ballI)
    fix j assume j: "j < length (tasks (resume sys ?n p))"
    show "tame (tasks (resume sys ?n p) ! j)"
      using j assms(1) r(3) tame_settle(1)[OF assms(3,4)]
      by (auto simp: r(4)[OF j] only_prober_def split: if_splits)
    show "quiet (tasks (resume sys ?n p) ! j)" if "j \<noteq> ?n"
      using j that assms(1,2) r(3)
      by (auto simp: r(4)[OF j] only_prober_def split: if_splits)
  next
    fix x assume "x \<in> set (issued (resume sys ?n p))" and "is_get (snd x)"
    then show "fst x = ?n"
      using assms(1,2) waiting_index[of x ?n p']
      by (auto simp: r(2) only_prober_def)
  next
    fix j assume "\<not> warmedUp (globals (resume sys ?n p))"
    then show "quiet (tasks (resume sys ?n p) ! j)"
      using assms(5) by (simp add: r(1))
  next
    fix x assume "\<not> warmedUp (globals (resume sys ?n p))"
    then show "\<not> is_get (snd x)"
      using assms(5) by (simp add: r(1))
  qed
qed

lemma step_only_prober:
  assumes "only_prober t sys"
  shows "\<exists>t'. only_prober t' (step_system sys st)"
proof (cases st)
  case (Deliver m)
  obtain s' p' where se: "settle (handleMessage m) (globals sys) = (s', p')"
    by (metis prod.exhaust)
  show ?thesis
  proof (cases "warmedUp (globals sys)")
    case True
    from resume_quiet[OF assms tame_handleMessage order_refl se settle_warm_quiet[OF True se]]
    show ?thesis
      using Deliver by auto
  next
    case False
    from settle_flag[OF se] show ?thesis
    proof
      assume "warmedUp s'"
      from resume_first[OF assms False tame_handleMessage se this] show ?thesis
        using Deliver by auto
    next
      assume "s' = globals sys \<and> p' = Return ()"
      then have "quiet p'"
        by (simp add: quiet_def)
      from resume_quiet[OF assms tame_handleMessage order_refl se this] show ?thesis
        using Deliver by auto
    qed
  qed
next
  case (Complete i out)
  show ?thesis
  proof (cases "i < length (tasks sys)")
    case False
    then show ?thesis
      using assms Complete by auto
  next
    case lt: True
    then have le: "i \<le> length (tasks sys)"
      by simp
    show ?thesis
    proof (cases "tasks sys ! i")
      case (Await a k)
      have tk: "tame (k out)" and qk: "quiet (Await a k) \<Longrightarrow> quiet (k out)"
        using assms lt Await by (auto simp: only_prober_def tame_def quiet_def)
      show ?thesis
      proof (cases "possible a out")
        case False
        then show ?thesis
          using assms Complete lt Await by auto
      next
        case poss: True
        show ?thesis
        proof (cases "i = t")
          case True
          have "\<not> warmedUp (globals sys) \<Longrightarrow> quiet (k out)"
            using assms \<open>i < length (tasks sys)\<close> Await qk by (auto simp: only_prober_def)
          from resume_prober[OF assms tk _ this] True lt
          show ?thesis
            using Complete Await poss by auto
        next
          case False
          obtain s' p' where se: "settle (k out) (globals sys) = (s', p')"
            by (metis prod.exhaust)
          have "quiet (k out)"
            using assms \<open>i < length (tasks sys)\<close> Await qk False by (auto simp: only_prober_def)
          from resume_quiet[OF assms tk le se quiet_settle[OF this se]] lt
          show ?thesis
            using Complete Await poss by auto
        qed
      qed
    qed (use assms Complete lt in auto)
  qed
qed

lemma steps_only_prober:
  assumes "only_prober t sys"
  shows "\<exists>t'. only_prober t' (foldl step_system sys steps)"
  using assms
proof (induction steps arbitrary: t sys)
  case Nil
  then show ?case by auto
next
  case (Cons st steps)
  from step_only_prober[OF Cons.prems, of st] obtain t' where
    "only_prober t' (step_system sys st)" by blast
  from Cons.IH[OF this] show ?case by simp
qed

lemma interleaved_only_prober: "\<exists>t. only_prober t (interleaved steps)"
  unfolding interleaved_def
  by (rule steps_only_prober[of 0]) (simp add: only_prober_def)

text \<open>
  C4. In a run that handles any list of messages one after the other from the start of the
  process, at most one message makes health requests (at most three of them), whatever the
  outcome of the requests; once the flag is set no message makes any. The flag is set
  before the first suspension: when the handler of a message first waits, or ends, the
  flag is set unless the message was dropped without any effect. So also when handlers
  overlap in any order, all health requests come from one and the same handler.
\<close>

theorem warm_up_runs_at_most_once:
  "length (filter probes (run_events ms w initial [])) \<le> 1
   \<and> count is_get (snd (run ms w initial [])) \<le> 3
   \<and> (warmedUp s \<longrightarrow>
        filter probes (run_events ms w s tr) = []
      \<and> count is_get (snd (run ms w s tr)) = count is_get tr)
   \<and> (\<forall>s' p. settle (handleMessage m) s = (s', p) \<longrightarrow> warmedUp s' \<or> (s' = s \<and> p = Return ()))
   \<and> (\<forall>x \<in> set (issued (interleaved steps)). \<forall>y \<in> set (issued (interleaved steps)).
         is_get (snd x) \<and> is_get (snd y) \<longrightarrow> fst x = fst y)"
proof (intro conjI)
  show "length (filter probes (run_events ms w initial [])) \<le> 1"
    using run_events_any[of ms w initial "[]"] by blast
  show "count is_get (snd (run ms w initial [])) \<le> 3"
    using run_events_any[of ms w initial "[]"] by simp
  show "warmedUp s \<longrightarrow>
        filter probes (run_events ms w s tr) = []
      \<and> count is_get (snd (run ms w s tr)) = count is_get tr"
    using run_events_warm[of s ms w tr] by blast
  show "\<forall>s' p. settle (handleMessage m) s = (s', p) \<longrightarrow> warmedUp s' \<or> (s' = s \<and> p = Return ())"
    using settle_flag[of m s] by blast
  obtain t where "only_prober t (interleaved steps)"
    using interleaved_only_prober by blast
  then have "\<forall>x \<in> set (issued (interleaved steps)). is_get (snd x) \<longrightarrow> fst x = t"
    unfolding only_prober_def by blast
  then show "\<forall>x \<in> set (issued (interleaved steps)). \<forall>y \<in> set (issued (interleaved steps)).
         is_get (snd x) \<and> is_get (snd y) \<longrightarrow> fst x = fst y"
    by simp
qed

lemma two_messages_down:
  "run_events [chat (js ''#nivel''), chat (js ''#nivel'')] world_down initial []
     = [[(SendText user1 preparing_notice, Resolved NoReply),
         (GetHealth, Rejected (Failure 0)),
         (Sleep 1500, Resolved NoReply),
         (GetHealth, Rejected (Failure 1)),
         (Sleep 3000, Resolved NoReply),
         (GetHealth, Rejected (Failure 2)),
         (SendText user1 levelMsg, Resolved NoReply)],
        [(SendText user1 levelMsg, Resolved NoReply)]]"
  by (simp add: exec_handleMessage handleMessage_try_def msg_eval dispatch_def warmUp_def
        initial_def exec_bind exec_try_catch exec_sendText getHealthWithRetry_def
        getHealthWithRetry_loop_step pause_events_def delay_at_def health_delays_def
        world_down_def)

lemma two_messages_overlap:
  "issued (interleaved [Deliver (chat (js ''#nivel'')), Deliver (chat (js ''#nivel'')),
                        Complete 0 (Resolved NoReply)])
     = [(0, SendText user1 preparing_notice), (1, SendText user1 levelMsg), (0, GetHealth)]"
  by (simp add: interleaved_def resume_def waiting_for_def possible_def handleMessage_def
        handleMessage_try_def msg_eval dispatch_def warmUp_def initial_def sendText_def
        await_def getHealthWithRetry_def getHealthWithRetry_loop.simps pause_def delay_at_def
        health_delays_def)

theorem warm_up_runs_at_most_once_witness:
  "run_events [chat (js ''#nivel''), chat (js ''#nivel'')] world_down initial []
     = [[(SendText user1 preparing_notice, Resolved NoReply),
         (GetHealth, Rejected (Failure 0)),
         (Sleep 1500, Resolved NoReply),
         (GetHealth, Rejected (Failure 1)),
         (Sleep 3000, Resolved NoReply),
         (GetHealth, Rejected (Failure 2)),
         (SendText user1 levelMsg, Resolved NoReply)],
        [(SendText user1 levelMsg, Resolved NoReply)]]
   \<and> length (filter probes
         (run_events [chat (js ''#nivel''), chat (js ''#nivel'')] world_down initial [])) \<le> 1
   \<and> count is_get (snd (run [chat (js ''#nivel''), chat (js ''#nivel'')] world_down initial [])) \<le> 3
   \<and> warmedUp warmed
   \<and> filter probes (run_events [chat (js ''#nivel''), chat (js ''#nivel'')] world_down warmed []) = []
   \<and> issued (interleaved [Deliver (chat (js ''#nivel'')), Deliver (chat (js ''#nivel'')),
                           Complete 0 (Resolved NoReply)])
       = [(0, SendText user1 preparing_notice), (1, SendText user1 levelMsg), (0, GetHealth)]"
proof -
  have w: "warmedUp warmed"
    by (simp add: warmed_def)
  show ?thesis
    using warm_up_runs_at_most_once[of "[chat (js ''#nivel''), chat (js ''#nivel'')]" world_down
        warmed "[]" "chat (js ''#nivel'')"
        "[Deliver (chat (js ''#nivel'')), Deliver (chat (js ''#nivel'')), Complete 0 (Resolved NoReply)]"]
      w two_messages_down two_messages_overlap
    by simp
qed

subsection \<open>The level of a user\<close>

lemma exec_extends:
  "\<exists>new. fst (snd (exec p w s tr)) = tr @ new"
proof (induction p arbitrary: s tr)
  case (Await a k)
  from Await.IH[OF rangeI, of "respond w tr a" s "tr @ [(a, respond w tr a)]"]
  show ?case by auto
next
  case (Read k)
  from Read.IH[OF rangeI, of s s tr] show ?case by simp
qed simp_all

lemma exec_first:
  assumes "settle p s = (s1, Await a k)"
  shows "\<exists>rest s' r. exec p w s tr = (s', tr @ (a, respond w tr a) # rest, r)"
  using assms
proof (induction p arbitrary: s)
  case (Await a' k')
  then have eq: "a' = a" "k' = k"
    by simp_all
  obtain s' tr' r where ex: "exec (k (respond w tr a)) w s (tr @ [(a, respond w tr a)]) = (s', tr', r)"
    by (metis prod_cases3)
  from exec_extends[of "k (respond w tr a)" w s "tr @ [(a, respond w tr a)]"] ex
  obtain new where "tr' = (tr @ [(a, respond w tr a)]) @ new"
    by auto
  with ex show ?case
    by (simp add: eq)
next
  case (Read k')
  then have "settle (k' s) s = (s1, Await a k)"
    by simp
  from Read.IH[OF rangeI this] show ?case
    by simp
next
  case (Update g p)
  then have "settle p (g s) = (s1, Await a k)"
    by simp
  from Update.IH[OF this] show ?case
    by simp
qed simp_all

lemma settle_default:
  assumes "default_path m"
  shows "\<exists>k. settle (dispatch m (userPhone_of m) (body_of m)) s
               = (s, Await (Post (js ''/correct'')
                       (CorrectReq (body_of m)
                          (or_else (userLevels s (userPhone_of m)) (js ''basic''))
                          (userPhone_of m))) k)"
  using assms
  by (simp add: default_path_def is_audio_def dispatch_def Let_def postWithRetry_def
        postWithRetry_loop.simps pause_def delay_at_def delays_def await_def)

lemma default_first_post:
  assumes "default_path m"
  shows "\<exists>pre rest s'.
           exec (handleMessage m) w s tr
             = (s', tr @ pre @ (Post (js ''/correct'')
                                 (CorrectReq (body_of m)
                                    (or_else (userLevels s (userPhone_of m)) (js ''basic''))
                                    (userPhone_of m)),
                               post_out w (count is_post tr)) # rest,
                Returned ())
         \<and> (if warmedUp s then pre = [] else warmup_trace (userPhone_of m) pre)"
proof -
  let ?u = "userPhone_of m"
  let ?a = "Post (js ''/correct'')
              (CorrectReq (body_of m) (or_else (userLevels s ?u) (js ''basic'')) ?u)"
  have acc: "accepted m"
    using assms by (simp add: default_path_def)
  from exec_handleMessage_try_accepted[OF acc, of w s tr] obtain pre where
    tb: "exec (handleMessage_try m) w s tr
            = exec (dispatch m ?u (body_of m)) w (s\<lparr>warmedUp := True\<rparr>) (tr @ pre)"
    and pre: "if warmedUp s then pre = [] else warmup_trace ?u pre"
    by (metis (full_types))
  have cnt: "count is_post (tr @ pre) = count is_post tr"
    using pre warmup_trace_counts(1)[of ?u pre] by (cases "warmedUp s") simp_all
  from settle_default[OF assms, of "s\<lparr>warmedUp := True\<rparr>"] obtain k where
    "settle (dispatch m ?u (body_of m)) (s\<lparr>warmedUp := True\<rparr>)
       = (s\<lparr>warmedUp := True\<rparr>, Await ?a k)"
    by auto
  from exec_first[OF this, of w "tr @ pre"] cnt obtain rest s' r where
    d: "exec (dispatch m ?u (body_of m)) w (s\<lparr>warmedUp := True\<rparr>) (tr @ pre)
          = (s', (tr @ pre) @ (?a, post_out w (count is_post tr)) # rest, r)"
    by auto
  obtain s2 tr2 where h: "exec (handleMessage m) w s tr = (s2, tr2, Returned ())"
    using handleMessage_returns by blast
  show ?thesis
  proof (cases r)
    case (Thrown e)
    let ?ev = "(SendText (or_else (sender_from m) (js ''unknown'')) unexpected_notice,
                send_out w (count is_send ((tr @ pre) @ (?a, post_out w (count is_post tr)) # rest)))"
    have "exec (handleMessage m) w s tr
            = (s', tr @ pre @ (?a, post_out w (count is_post tr)) # (rest @ [?ev]), Returned ())"
      using tb d Thrown by (simp add: exec_handleMessage)
    then show ?thesis
      using pre by blast
  next
    case (Returned u)
    then have "exec (handleMessage m) w s tr
            = (s', tr @ pre @ (?a, post_out w (count is_post tr)) # rest, Returned ())"
      using tb d by (simp add: exec_handleMessage)
    then show ?thesis
      using pre by blast
  next
    case Diverged
    then show ?thesis
      using tb d h by (simp add: exec_handleMessage)
  qed
qed

text \<open>Only a level choice of the same user changes that user's level.\<close>

lemma within_handleMessage_level:
  assumes "\<not> (level_choice m \<and> userPhone_of m = u)"
  shows "within (\<lambda>a. True) (\<lambda>g. \<forall>s. userLevels (g s) u = userLevels s u) (handleMessage m)"
proof -
  have "within (\<lambda>a. True) (\<lambda>g. \<forall>s. userLevels (g s) u = userLevels s u)
          (dispatch m (userPhone_of m) (body_of m))"
    if "accepted m"
  proof (rule within_dispatch)
    assume "\<not> (mtype m = js ''ptt'' \<or> mtype m = js ''audio'')"
      and "body_of m \<in> set [js ''1'', js ''2'', js ''3'', js ''4'']"
    with that have "level_choice m"
      by (simp add: level_choice_def is_audio_def)
    with assms have "userPhone_of m \<noteq> u"
      by blast
    then show "\<forall>s. userLevels (s\<lparr>userLevels := (userLevels s)(userPhone_of m := levelMap (body_of m))\<rparr>) u
                  = userLevels s u"
      by simp
  qed simp_all
  then show ?thesis
    by (simp add: handleMessage_def handleMessage_try_def Let_def accepted_def
          within_try_catch within_bind within_warmUp within_sendText)
qed

lemma handle_keeps_level:
  assumes "\<not> (level_choice m \<and> userPhone_of m = u)"
    and "exec (handleMessage m) w s tr = (s', tr', r)"
  shows "userLevels s' u = userLevels s u"
  using exec_frame[OF within_handleMessage_level[OF assms(1)] assms(2)] .

lemma handle_keeps_warm:
  assumes "warmedUp s" and "exec (handleMessage m) w s tr = (s', tr', r)"
  shows "warmedUp s'"
proof (cases "accepted m")
  case True
  from exec_handleMessage_accepted[OF True, of w s tr] assms(2) show ?thesis
    by auto
next
  case False
  then show ?thesis
    using assms by (simp add: exec_handleMessage_dropped)
qed

lemma run_keeps:
  assumes "\<forall>m \<in> set ms. \<not> (level_choice m \<and> userPhone_of m = u)" and "warmedUp s"
    and "run ms w s tr = (s', tr')"
  shows "userLevels s' u = userLevels s u \<and> warmedUp s'"
  using assms
proof (induction ms arbitrary: s tr)
  case Nil
  then show ?case by simp
next
  case (Cons m ms)
  obtain s1 tr1 r where ex: "exec (handleMessage m) w s tr = (s1, tr1, r)"
    by (metis prod_cases3)
  with Cons.prems have "run ms w s1 tr1 = (s', tr')"
    by simp
  moreover have "userLevels s1 u = userLevels s u" and "warmedUp s1"
    using handle_keeps_level[OF _ ex, of u] handle_keeps_warm[OF _ ex] Cons.prems by simp_all
  ultimately show ?case
    using Cons.IH[of s1 tr1] Cons.prems by simp
qed

lemma exec_level_choice:
  assumes "(b, l) \<in> set [(js ''1'', js ''beginner''), (js ''2'', js ''basic''),
                           (js ''3'', js ''intermediate''), (js ''4'', js ''advanced'')]"
    and "\<not> (mtype m = js ''ptt'' \<or> mtype m = js ''audio'')" and "sends_ok w"
  shows "exec (dispatch m u b) w s tr
           = (s\<lparr>userLevels := (userLevels s)(u \<mapsto> l)\<rparr>,
              tr @ [(SendText u (level_prefix @ l @ js ''*.''), send_out w (count is_send tr))],
              Returned ())"
proof -
  from assms(1) consider
    "b = js ''1''" "l = js ''beginner''" | "b = js ''2''" "l = js ''basic''"
    | "b = js ''3''" "l = js ''intermediate''" | "b = js ''4''" "l = js ''advanced''"
    by auto
  then show ?thesis
  proof cases
    case 1
    have "toLowerCase b \<noteq> js ''#ajuda''" "toLowerCase b \<noteq> js ''#nivel''" "levelMap b = Some l"
      using 1 by (simp_all add: toLowerCase_def lower_unit_def js_def levelMap_def)
    then show ?thesis
      using 1(1) assms(2,3)
      by (simp add: dispatch_def Let_def exec_sendText_ok level_confirmation_def)
  next
    case 2
    have "toLowerCase b \<noteq> js ''#ajuda''" "toLowerCase b \<noteq> js ''#nivel''" "levelMap b = Some l"
      using 2 by (simp_all add: toLowerCase_def lower_unit_def js_def levelMap_def)
    then show ?thesis
      using 2(1) assms(2,3)
      by (simp add: dispatch_def Let_def exec_sendText_ok level_confirmation_def)
  next
    case 3
    have "toLowerCase b \<noteq> js ''#ajuda''" "toLowerCase b \<noteq> js ''#nivel''" "levelMap b = Some l"
      using 3 by (simp_all add: toLowerCase_def lower_unit_def js_def levelMap_def)
    then show ?thesis
      using 3(1) assms(2,3)
      by (simp add: dispatch_def Let_def exec_sendText_ok level_confirmation_def)
  next
    case 4
    have "toLowerCase b \<noteq> js ''#ajuda''" "toLowerCase b \<noteq> js ''#nivel''" "levelMap b = Some l"
      using 4 by (simp_all add: toLowerCase_def lower_unit_def js_def levelMap_def)
    then show ?thesis
      using 4(1) assms(2,3)
      by (simp add: dispatch_def Let_def exec_sendText_ok level_confirmation_def)
  qed
qed

lemma handle_level_choice:
  assumes "accepted m" and "\<not> is_audio m"
    and "(body_of m, l) \<in> set [(js ''1'', js ''beginner''), (js ''2'', js ''basic''),
                                (js ''3'', js ''intermediate''), (js ''4'', js ''advanced'')]"
    and "sends_ok w"
  shows "\<exists>pre. exec (handleMessage m) w s tr
                 = (s\<lparr>userLevels := (userLevels s)(userPhone_of m \<mapsto> l), warmedUp := True\<rparr>,
                    tr @ pre @ [(SendText (userPhone_of m) (level_prefix @ l @ js ''*.''),
                                 send_out w (count is_send (tr @ pre)))],
                    Returned ())
             \<and> (if warmedUp s then pre = [] else warmup_trace (userPhone_of m) pre)"
proof -
  from exec_handleMessage_try_accepted[OF assms(1), of w s tr] obtain pre where
    tb: "exec (handleMessage_try m) w s tr
            = exec (dispatch m (userPhone_of m) (body_of m)) w (s\<lparr>warmedUp := True\<rparr>) (tr @ pre)"
    and pre: "if warmedUp s then pre = [] else warmup_trace (userPhone_of m) pre"
    by (metis (full_types))
  have na: "\<not> (mtype m = js ''ptt'' \<or> mtype m = js ''audio'')"
    using assms(2) by (simp add: is_audio_def)
  have "exec (handleMessage m) w s tr
          = (s\<lparr>userLevels := (userLevels s)(userPhone_of m \<mapsto> l), warmedUp := True\<rparr>,
             tr @ pre @ [(SendText (userPhone_of m) (level_prefix @ l @ js ''*.''),
                          send_out w (count is_send (tr @ pre)))],
             Returned ())"
    using tb exec_level_choice[OF assms(3) na assms(4), of "userPhone_of m"
            "s\<lparr>warmedUp := True\<rparr>" "tr @ pre"]
    by (simp add: exec_handleMessage)
  with pre show ?thesis
    by blast
qed

subsection \<open>The level of a user when handlers overlap\<close>

lemma keeps_level_handleMessage:
  assumes "\<not> (level_choice m \<and> userPhone_of m = u)"
  shows "keeps_level u (handleMessage m)"
proof -
  let ?U = "\<lambda>g. \<forall>s. (warmedUp s \<longrightarrow> warmedUp (g s)) \<and> userLevels (g s) u = userLevels s u"
  have "within (\<lambda>a. True) ?U (dispatch m (userPhone_of m) (body_of m))"
    if "accepted m"
  proof (rule within_dispatch)
    assume "\<not> (mtype m = js ''ptt'' \<or> mtype m = js ''audio'')"
      and "body_of m \<in> set [js ''1'', js ''2'', js ''3'', js ''4'']"
    with that have "level_choice m"
      by (simp add: level_choice_def is_audio_def)
    with assms have "userPhone_of m \<noteq> u"
      by blast
    then show "?U (\<lambda>s. s\<lparr>userLevels := (userLevels s)(userPhone_of m := levelMap (body_of m))\<rparr>)"
      by simp
  qed simp_all
  then show ?thesis
    by (simp add: keeps_level_def handleMessage_def handleMessage_try_def Let_def accepted_def
          within_try_catch within_bind within_warmUp within_sendText)
qed

lemma keeps_level_settle:
  assumes "keeps_level u p" and "settle p s = (s', p')"
  shows "keeps_level u p'" and "userLevels s' u = userLevels s u"
    and "warmedUp s \<Longrightarrow> warmedUp s'"
proof -
  let ?I = "\<lambda>x. (warmedUp s \<longrightarrow> warmedUp x) \<and> userLevels x u = userLevels s u"
  from assms(1) have "within (\<lambda>a. True) (\<lambda>g. \<forall>x. ?I x \<longrightarrow> ?I (g x)) p"
    unfolding keeps_level_def by (rule within_mono) simp_all
  from settle_invariant[OF this _ assms(2)] have "?I s'"
    by simp
  then show "userLevels s' u = userLevels s u" and "warmedUp s \<Longrightarrow> warmedUp s'"
    by simp_all
  show "keeps_level u p'"
    using assms settle_within[of "\<lambda>a. True" _ p s s' p'] by (simp add: keeps_level_def)
qed

lemma resume_keeps_level:
  assumes "\<forall>j < length (tasks sys). keeps_level u (tasks sys ! j)"
    and "keeps_level u p" and "i \<le> length (tasks sys)"
  shows "\<forall>j < length (tasks (resume sys i p)). keeps_level u (tasks (resume sys i p) ! j)"
    and "userLevels (globals (resume sys i p)) u = userLevels (globals sys) u"
    and "warmedUp (globals sys) \<Longrightarrow> warmedUp (globals (resume sys i p))"
proof -
  obtain s' p' where st: "settle p (globals sys) = (s', p')"
    by (metis prod.exhaust)
  note r = resume_tasks[OF assms(3) st]
  note k = keeps_level_settle[OF assms(2) st]
  show "userLevels (globals (resume sys i p)) u = userLevels (globals sys) u"
    using k(2) by (simp add: r(1))
  show "warmedUp (globals sys) \<Longrightarrow> warmedUp (globals (resume sys i p))"
    using k(3) by (simp add: r(1))
  show "\<forall>j < length (tasks (resume sys i p)). keeps_level u (tasks (resume sys i p) ! j)"
  proof (intro allI impI)
    fix j assume j: "j < length (tasks (resume sys i p))"
    show "keeps_level u (tasks (resume sys i p) ! j)"
      using j assms(1,3) r(3) k(1)
      by (auto simp: r(4)[OF j] split: if_splits)
  qed
qed

lemma step_keeps_level:
  assumes "\<forall>j < length (tasks sys). keeps_level u (tasks sys ! j)"
    and "\<not> delivers_choice u st"
  shows "(\<forall>j < length (tasks (step_system sys st)). keeps_level u (tasks (step_system sys st) ! j))
       \<and> userLevels (globals (step_system sys st)) u = userLevels (globals sys) u
       \<and> (warmedUp (globals sys) \<longrightarrow> warmedUp (globals (step_system sys st)))"
proof (cases st)
  case (Deliver m)
  with assms(2) have "keeps_level u (handleMessage m)"
    by (intro keeps_level_handleMessage) (simp add: delivers_choice_def)
  from resume_keeps_level[OF assms(1) this order_refl] show ?thesis
    using Deliver by simp
next
  case (Complete i out)
  show ?thesis
  proof (cases "i < length (tasks sys)")
    case False
    then show ?thesis
      using assms(1) Complete by simp
  next
    case lt: True
    show ?thesis
    proof (cases "tasks sys ! i")
      case (Await a k)
      have "keeps_level u (k out)"
        using assms(1) lt Await by (auto simp: keeps_level_def)
      from resume_keeps_level[OF assms(1) this, of i] lt show ?thesis
        using Complete Await assms(1) by simp
    qed (use assms(1) Complete lt in simp_all)
  qed
qed

lemma steps_keep_level:
  assumes "\<forall>j < length (tasks sys). keeps_level u (tasks sys ! j)"
    and "\<forall>st \<in> set steps. \<not> delivers_choice u st"
  shows "(\<forall>j < length (tasks (foldl step_system sys steps)).
            keeps_level u (tasks (foldl step_system sys steps) ! j))
       \<and> userLevels (globals (foldl step_system sys steps)) u = userLevels (globals sys) u
       \<and> (warmedUp (globals sys) \<longrightarrow> warmedUp (globals (foldl step_system sys steps)))"
  using assms
proof (induction steps arbitrary: sys)
  case Nil
  then show ?case by simp
next
  case (Cons st steps)
  from Cons.prems have n: "\<not> delivers_choice u st"
    by simp
  note k = step_keeps_level[OF Cons.prems(1) n]
  from Cons.IH[of "step_system sys st"] Cons.prems(2) k show ?case
    by simp
qed

lemma steps_level_settled:
  assumes "level_settled u sys" and "\<forall>st \<in> set steps. \<not> delivers_choice u st"
  shows "level_settled u (foldl step_system sys steps)"
    and "userLevels (globals (foldl step_system sys steps)) u = userLevels (globals sys) u"
  using steps_keep_level[OF _ assms(2), of sys] assms(1)
  by (simp_all add: level_settled_def)

lemma interleaved_level_settled:
  assumes "\<forall>st \<in> set steps. \<not> delivers_choice u st"
    and "warmedUp (globals (interleaved steps))"
  shows "level_settled u (interleaved steps)"
  using steps_keep_level[OF _ assms(1), of "\<lparr>globals = initial, tasks = [], issued = []\<rparr>"] assms(2)
  by (simp add: level_settled_def interleaved_def)

lemma dispatch_level_choice:
  assumes "(b, l) \<in> set [(js ''1'', js ''beginner''), (js ''2'', js ''basic''),
                           (js ''3'', js ''intermediate''), (js ''4'', js ''advanced'')]"
    and "\<not> (mtype m = js ''ptt'' \<or> mtype m = js ''audio'')"
  shows "dispatch m u b
           = Update (\<lambda>s. s\<lparr>userLevels := (userLevels s)(u \<mapsto> l)\<rparr>)
               (sendText u (level_prefix @ l @ js ''*.''))"
proof -
  from assms(1) consider
    "b = js ''1''" "l = js ''beginner''" | "b = js ''2''" "l = js ''basic''"
    | "b = js ''3''" "l = js ''intermediate''" | "b = js ''4''" "l = js ''advanced''"
    by auto
  then have "toLowerCase b \<noteq> js ''#ajuda'' \<and> toLowerCase b \<noteq> js ''#nivel'' \<and> levelMap b = Some l"
    by cases (simp_all add: toLowerCase_def lower_unit_def js_def levelMap_def)
  moreover have "b \<in> set [js ''1'', js ''2'', js ''3'', js ''4'']"
    using assms(1) by auto
  ultimately show ?thesis
    using assms(2) by (simp add: dispatch_def Let_def level_confirmation_def)
qed

lemma deliver_level_choice:
  assumes "level_settled u sys" and "accepted m" and "\<not> is_audio m"
    and "(body_of m, l) \<in> set [(js ''1'', js ''beginner''), (js ''2'', js ''basic''),
                                (js ''3'', js ''intermediate''), (js ''4'', js ''advanced'')]"
    and "userPhone_of m = u"
  shows "level_settled u (step_system sys (Deliver m))"
    and "globals (step_system sys (Deliver m))
           = (globals sys)\<lparr>userLevels := (userLevels (globals sys))(u \<mapsto> l)\<rparr>"
    and "issued (step_system sys (Deliver m))
           = issued sys @ [(length (tasks sys), SendText u (level_prefix @ l @ js ''*.''))]"
proof -
  let ?s = "globals sys"
  let ?s1 = "?s\<lparr>userLevels := (userLevels ?s)(u \<mapsto> l)\<rparr>"
  let ?h = "\<lambda>e. let userPhone = or_else (sender_from m) (js ''unknown'')
                 in try_catch (sendText userPhone unexpected_notice) (\<lambda>_. Return ())"
  let ?q = "try_catch (sendText u (level_prefix @ l @ js ''*.'')) ?h"
  have w: "warmedUp ?s"
    using assms(1) by (simp add: level_settled_def)
  have na: "\<not> (mtype m = js ''ptt'' \<or> mtype m = js ''audio'')"
    using assms(3) by (simp add: is_audio_def)
  have eq: "settle (handleMessage m) ?s = settle ?q ?s1"
    using w assms(2,5) dispatch_level_choice[OF assms(4) na, of u]
    by (simp add: handleMessage_def handleMessage_try_def accepted_def Let_def warmUp_def)
  obtain k where st: "settle ?q ?s1 = (?s1, Await (SendText u (level_prefix @ l @ js ''*.'')) k)"
    by (simp add: sendText_def await_def Let_def)
  have "keeps_level u ?q"
    by (simp add: keeps_level_def within_try_catch within_sendText Let_def)
  from keeps_level_settle(1)[OF this st]
  have kk: "keeps_level u (Await (SendText u (level_prefix @ l @ js ''*.'')) k)" .
  from eq st have se: "settle (handleMessage m) ?s
      = (?s1, Await (SendText u (level_prefix @ l @ js ''*.'')) k)"
    by simp
  note r = resume_tasks[OF order_refl se]
  show "globals (step_system sys (Deliver m)) = ?s1"
    by (simp add: r(1))
  show "issued (step_system sys (Deliver m))
           = issued sys @ [(length (tasks sys), SendText u (level_prefix @ l @ js ''*.''))]"
    by (simp add: r(2) waiting_for_def)
  show "level_settled u (step_system sys (Deliver m))"
    unfolding level_settled_def
  proof (intro conjI allI impI)
    show "warmedUp (globals (step_system sys (Deliver m)))"
      using w by (simp add: r(1))
    fix j assume "j < length (tasks (step_system sys (Deliver m)))"
    then have j: "j < length (tasks (resume sys (length (tasks sys)) (handleMessage m)))"
      by simp
    show "keeps_level u (tasks (step_system sys (Deliver m)) ! j)"
      using j assms(1) r(3) kk
      by (auto simp: r(4)[OF j] level_settled_def split: if_splits)
  qed
qed

lemma deliver_default:
  assumes "warmedUp (globals sys)" and "default_path m"
  shows "issued (step_system sys (Deliver m))
           = issued sys @ [(length (tasks sys),
                Post (js ''/correct'')
                  (CorrectReq (body_of m)
                     (or_else (userLevels (globals sys) (userPhone_of m)) (js ''basic''))
                     (userPhone_of m)))]"
proof -
  let ?h = "\<lambda>e. let userPhone = or_else (sender_from m) (js ''unknown'')
                 in try_catch (sendText userPhone unexpected_notice) (\<lambda>_. Return ())"
  have "\<exists>k. settle (handleMessage m) (globals sys)
          = (globals sys, Await (Post (js ''/correct'')
                  (CorrectReq (body_of m)
                     (or_else (userLevels (globals sys) (userPhone_of m)) (js ''basic''))
                     (userPhone_of m))) k)"
    using assms
    by (simp add: handleMessage_def handleMessage_try_def accepted_def warmUp_def
          default_path_def is_audio_def dispatch_def Let_def postWithRetry_def
          postWithRetry_loop.simps pause_def delay_at_def delays_def await_def)
  then obtain k where se: "settle (handleMessage m) (globals sys)
          = (globals sys, Await (Post (js ''/correct'')
                  (CorrectReq (body_of m)
                     (or_else (userLevels (globals sys) (userPhone_of m)) (js ''basic''))
                     (userPhone_of m))) k)"
    by blast
  show ?thesis
    by (simp add: resume_tasks(2)[OF order_refl se] waiting_for_def)
qed

text \<open>Once the level of a user is settled it stays settled, whatever happens next.\<close>

lemma level_settled_step:
  assumes "level_settled u sys"
  shows "level_settled u (step_system sys st)"
proof (cases "delivers_choice u st")
  case False
  from steps_level_settled(1)[OF assms, of "[st]"] False show ?thesis
    by (simp del: step_system.simps)
next
  case True
  then obtain m where st: "st = Deliver m" and lc: "level_choice m" and u: "userPhone_of m = u"
    by (cases st) (simp_all add: delivers_choice_def)
  from lc have acc: "accepted m" and na: "\<not> is_audio m"
    and "body_of m \<in> set [js ''1'', js ''2'', js ''3'', js ''4'']"
    by (simp_all add: level_choice_def)
  then obtain l where
    "(body_of m, l) \<in> set [(js ''1'', js ''beginner''), (js ''2'', js ''basic''),
                            (js ''3'', js ''intermediate''), (js ''4'', js ''advanced'')]"
    by auto
  from deliver_level_choice(1)[OF assms acc na this u] show ?thesis
    unfolding st .
qed

lemma level_settled_steps:
  assumes "level_settled u sys"
  shows "level_settled u (foldl step_system sys steps)"
  using assms
proof (induction steps arbitrary: sys)
  case Nil
  then show ?case by simp
next
  case (Cons st steps)
  from Cons.IH[OF level_settled_step[OF Cons.prems, of st]] show ?case
    by simp
qed

text \<open>Two concrete interleavings.\<close>

lemma cold_start_overlap:
  "issued (interleaved [Deliver (chat (js ''3'')), Deliver (chat (js ''I go school yesterday''))])
     = [(0, SendText user1 preparing_notice),
        (1, Post (js ''/correct'')
              (CorrectReq (js ''I go school yesterday'') (js ''basic'') user1))]"
  by (simp add: interleaved_def resume_def waiting_for_def handleMessage_def
        handleMessage_try_def msg_eval dispatch_def warmUp_def initial_def sendText_def
        await_def postWithRetry_def postWithRetry_loop.simps pause_def delay_at_def delays_def)


lemma warm_overlap_trace:
  "issued (interleaved [Deliver (chat (js ''#nivel'')), Deliver (chat (js ''3'')),
                        Complete 0 (Resolved NoReply),
                        Deliver (chat (js ''I go school yesterday''))])
     = [(0, SendText user1 preparing_notice),
        (1, SendText user1 (level_prefix @ js ''intermediate'' @ js ''*.'')),
        (0, GetHealth),
        (2, Post (js ''/correct'')
              (CorrectReq (js ''I go school yesterday'') (js ''intermediate'') user1))]"
  by (simp add: interleaved_def resume_def waiting_for_def possible_def handleMessage_def
        handleMessage_try_def msg_eval dispatch_def warmUp_def initial_def sendText_def
        await_def getHealthWithRetry_def getHealthWithRetry_loop.simps
        postWithRetry_def postWithRetry_loop.simps pause_def delay_at_def delays_def
        health_delays_def levelMap_def level_confirmation_def)

lemma nivel_first_settled: "level_settled user1 (interleaved [Deliver (chat (js ''#nivel''))])"
proof (rule interleaved_level_settled)
  show "\<forall>st \<in> set [Deliver (chat (js ''#nivel''))]. \<not> delivers_choice user1 st"
    by (simp add: delivers_choice_def level_choice_def msg_eval)
  show "warmedUp (globals (interleaved [Deliver (chat (js ''#nivel''))]))"
    by (simp add: interleaved_def resume_def handleMessage_def handleMessage_try_def msg_eval
          warmUp_def initial_def sendText_def await_def)
qed

subsection \<open>Choosing a level\<close>

text \<open>
  C7, as the code has it. A message that passes the two filters, is not audio and whose
  trimmed body is \<open>1\<close>, \<open>2\<close>, \<open>3\<close> or \<open>4\<close> stores beginner, basic, intermediate or advanced
  for its sender and is answered with the confirmation that names that level. The level
  is stored when the handler reaches the level branch: after the warm-up when the message
  is the first one accepted, before the first suspension otherwise.

  When messages are handled one after the other, every later message of that user that
  reaches \<^verbatim>\<open>/correct\<close> carries that level in its payload, as long as the same user makes no
  other choice; a user without a stored level gets \<open>basic\<close>.

  The messaging layer does not wait for a handler before it starts the next one. When
  handlers overlap, a message that reaches \<^verbatim>\<open>/correct\<close> on a warmed-up process issues its
  request on arrival, with the level stored for its sender at that moment (\<open>basic\<close> if
  none). And when the level of the user is settled (the flag is set and no earlier choice
  of that user is still waiting in the warm-up; a state that no later step leaves), the
  choice is stored on arrival and its confirmation issued, and after any steps of any
  handlers that bring no other choice of that user, whatever the outcomes of the
  operations, a message of that user that reaches \<^verbatim>\<open>/correct\<close> carries the chosen level.
\<close>

theorem level_choice_is_stored_and_used:
  assumes "accepted m" and "\<not> is_audio m"
    and "(body_of m, l) \<in> set [(js ''1'', js ''beginner''), (js ''2'', js ''basic''),
                                (js ''3'', js ''intermediate''), (js ''4'', js ''advanced'')]"
    and "sends_ok w"
  shows "(\<exists>pre. exec (handleMessage m) w s tr
                  = (s\<lparr>userLevels := (userLevels s)(userPhone_of m \<mapsto> l), warmedUp := True\<rparr>,
                     tr @ pre @ [(SendText (userPhone_of m) (level_prefix @ l @ js ''*.''),
                                  send_out w (count is_send (tr @ pre)))],
                     Returned ())
              \<and> (if warmedUp s then pre = [] else warmup_trace (userPhone_of m) pre))
       \<and> (\<forall>ms m2.
             (\<forall>m' \<in> set ms. \<not> (level_choice m' \<and> userPhone_of m' = userPhone_of m))
             \<and> default_path m2 \<and> userPhone_of m2 = userPhone_of m
             \<longrightarrow> (\<exists>s1 tr1 s2 rest.
                    run (m # ms) w s tr = (s1, tr1)
                  \<and> exec (handleMessage m2) w s1 tr1
                      = (s2, tr1 @ (Post (js ''/correct'')
                                      (CorrectReq (body_of m2) l (userPhone_of m)),
                                    post_out w (count is_post tr1)) # rest,
                         Returned ())))
       \<and> (\<forall>m2 (s2::state) tr2.
             default_path m2 \<and> userLevels s2 (userPhone_of m2) = None
             \<longrightarrow> (\<exists>pre rest s3.
                    exec (handleMessage m2) w s2 tr2
                      = (s3, tr2 @ pre @ (Post (js ''/correct'')
                                           (CorrectReq (body_of m2) (js ''basic'') (userPhone_of m2)),
                                          post_out w (count is_post tr2)) # rest,
                         Returned ())
                  \<and> (if warmedUp s2 then pre = [] else warmup_trace (userPhone_of m2) pre)))
       \<and> (\<forall>sys m2.
             warmedUp (globals sys) \<and> default_path m2
             \<longrightarrow> issued (step_system sys (Deliver m2))
                   = issued sys @ [(length (tasks sys),
                        Post (js ''/correct'')
                          (CorrectReq (body_of m2)
                             (or_else (userLevels (globals sys) (userPhone_of m2)) (js ''basic''))
                             (userPhone_of m2)))])
       \<and> (\<forall>sys mid m2.
             level_settled (userPhone_of m) sys
             \<and> (\<forall>st \<in> set mid. \<not> delivers_choice (userPhone_of m) st)
             \<and> default_path m2 \<and> userPhone_of m2 = userPhone_of m
             \<longrightarrow> globals (step_system sys (Deliver m))
                   = (globals sys)\<lparr>userLevels := (userLevels (globals sys))(userPhone_of m \<mapsto> l)\<rparr>
               \<and> issued (step_system sys (Deliver m))
                   = issued sys @ [(length (tasks sys),
                        SendText (userPhone_of m) (level_prefix @ l @ js ''*.''))]
               \<and> (\<exists>sys1. sys1 = foldl step_system (step_system sys (Deliver m)) mid
                    \<and> level_settled (userPhone_of m) sys1
                    \<and> userLevels (globals sys1) (userPhone_of m) = Some l
                    \<and> issued (step_system sys1 (Deliver m2))
                        = issued sys1 @ [(length (tasks sys1),
                            Post (js ''/correct'')
                              (CorrectReq (body_of m2) l (userPhone_of m)))]))"
proof (intro conjI allI impI)
  show "\<exists>pre. exec (handleMessage m) w s tr
                 = (s\<lparr>userLevels := (userLevels s)(userPhone_of m \<mapsto> l), warmedUp := True\<rparr>,
                    tr @ pre @ [(SendText (userPhone_of m) (level_prefix @ l @ js ''*.''),
                                 send_out w (count is_send (tr @ pre)))],
                    Returned ())
             \<and> (if warmedUp s then pre = [] else warmup_trace (userPhone_of m) pre)"
    by (rule handle_level_choice[OF assms])
next
  fix ms m2
  assume h: "(\<forall>m' \<in> set ms. \<not> (level_choice m' \<and> userPhone_of m' = userPhone_of m))
             \<and> default_path m2 \<and> userPhone_of m2 = userPhone_of m"
  let ?u = "userPhone_of m"
  let ?s0 = "s\<lparr>userLevels := (userLevels s)(?u \<mapsto> l), warmedUp := True\<rparr>"
  from handle_level_choice[OF assms, of s tr] obtain tr0 where
    m: "exec (handleMessage m) w s tr = (?s0, tr0, Returned ())"
    by blast
  obtain s1 tr1 where r: "run ms w ?s0 tr0 = (s1, tr1)"
    by (metis prod.exhaust)
  from run_keeps[OF _ _ r, of ?u] h have s1: "userLevels s1 ?u = Some l" "warmedUp s1"
    by simp_all
  have l: "l \<noteq> []"
    using assms(3) by (auto simp: js_def)
  from default_first_post[of m2 w s1 tr1] h s1 l obtain rest s2 where
    "exec (handleMessage m2) w s1 tr1
       = (s2, tr1 @ (Post (js ''/correct'') (CorrectReq (body_of m2) l ?u),
                     post_out w (count is_post tr1)) # rest, Returned ())"
    by (auto simp: or_else_def)
  moreover have "run (m # ms) w s tr = (s1, tr1)"
    using m r by simp
  ultimately show "\<exists>s1 tr1 s2 rest.
      run (m # ms) w s tr = (s1, tr1)
    \<and> exec (handleMessage m2) w s1 tr1
        = (s2, tr1 @ (Post (js ''/correct'') (CorrectReq (body_of m2) l ?u),
                      post_out w (count is_post tr1)) # rest, Returned ())"
    by blast
next
  fix m2 and s2 :: state and tr2
  assume "default_path m2 \<and> userLevels s2 (userPhone_of m2) = None"
  with default_first_post[of m2 w s2 tr2]
  show "\<exists>pre rest s3.
          exec (handleMessage m2) w s2 tr2
            = (s3, tr2 @ pre @ (Post (js ''/correct'')
                                 (CorrectReq (body_of m2) (js ''basic'') (userPhone_of m2)),
                                post_out w (count is_post tr2)) # rest,
               Returned ())
        \<and> (if warmedUp s2 then pre = [] else warmup_trace (userPhone_of m2) pre)"
    by (simp add: or_else_def)
next
  fix sys :: system and m2
  assume "warmedUp (globals sys) \<and> default_path m2"
  then show "issued (step_system sys (Deliver m2))
               = issued sys @ [(length (tasks sys),
                    Post (js ''/correct'')
                      (CorrectReq (body_of m2)
                         (or_else (userLevels (globals sys) (userPhone_of m2)) (js ''basic''))
                         (userPhone_of m2)))]"
    using deliver_default[of sys m2] by blast
next
  fix sys :: system and mid m2
  assume h: "level_settled (userPhone_of m) sys
             \<and> (\<forall>st \<in> set mid. \<not> delivers_choice (userPhone_of m) st)
             \<and> default_path m2 \<and> userPhone_of m2 = userPhone_of m"
  let ?u = "userPhone_of m"
  from h have ls: "level_settled ?u sys" and mid: "\<forall>st \<in> set mid. \<not> delivers_choice ?u st"
    and dp: "default_path m2" and u2: "userPhone_of m2 = ?u"
    by simp_all
  note d = deliver_level_choice[OF ls assms(1,2,3) refl]
  show "globals (step_system sys (Deliver m))
          = (globals sys)\<lparr>userLevels := (userLevels (globals sys))(?u \<mapsto> l)\<rparr>"
    by (rule d(2))
  show "issued (step_system sys (Deliver m))
          = issued sys @ [(length (tasks sys), SendText ?u (level_prefix @ l @ js ''*.''))]"
    by (rule d(3))
  let ?sys1 = "foldl step_system (step_system sys (Deliver m)) mid"
  note k = steps_level_settled[OF d(1) mid]
  have lv: "userLevels (globals ?sys1) ?u = Some l"
    unfolding k(2) d(2) by simp
  have l: "l \<noteq> []"
    using assms(3) by (auto simp: js_def)
  have w1: "warmedUp (globals ?sys1)"
    using k(1) by (simp add: level_settled_def)
  have "issued (step_system ?sys1 (Deliver m2))
          = issued ?sys1 @ [(length (tasks ?sys1),
              Post (js ''/correct'') (CorrectReq (body_of m2) l ?u))]"
    unfolding deliver_default[OF w1 dp] u2 lv using l by (simp add: or_else_def)
  with k(1) lv
  show "\<exists>sys1. sys1 = ?sys1
          \<and> level_settled ?u sys1
          \<and> userLevels (globals sys1) ?u = Some l
          \<and> issued (step_system sys1 (Deliver m2))
              = issued sys1 @ [(length (tasks sys1),
                  Post (js ''/correct'') (CorrectReq (body_of m2) l ?u))]"
    by blast
qed


theorem level_choice_is_stored_and_used_witness:
  "accepted (chat (js ''3'')) \<and> \<not> is_audio (chat (js ''3''))
   \<and> (body_of (chat (js ''3'')), js ''intermediate'')
        \<in> set [(js ''1'', js ''beginner''), (js ''2'', js ''basic''),
                (js ''3'', js ''intermediate''), (js ''4'', js ''advanced'')]
   \<and> sends_ok world_ok
   \<and> exec (handleMessage (chat (js ''3''))) world_ok warmed []
       = (warmed\<lparr>userLevels := (userLevels warmed)(user1 \<mapsto> js ''intermediate'')\<rparr>,
          [(SendText user1 (level_prefix @ js ''intermediate'' @ js ''*.''), Resolved NoReply)],
          Returned ())
   \<and> (\<exists>s1 tr1 s2 rest.
         run [chat (js ''3''), chat (js ''#ajuda'')] world_ok warmed [] = (s1, tr1)
       \<and> exec (handleMessage (chat (js ''I go school yesterday''))) world_ok s1 tr1
           = (s2, tr1 @ (Post (js ''/correct'')
                           (CorrectReq (js ''I go school yesterday'') (js ''intermediate'') user1),
                         Resolved NoReply) # rest,
              Returned ()))
   \<and> level_settled user1 (interleaved [Deliver (chat (js ''#nivel''))])
   \<and> (\<exists>sys1. sys1 = interleaved [Deliver (chat (js ''#nivel'')), Deliver (chat (js ''3'')),
                                   Complete 0 (Resolved NoReply)]
        \<and> userLevels (globals sys1) user1 = Some (js ''intermediate'')
        \<and> issued (step_system sys1 (Deliver (chat (js ''I go school yesterday''))))
            = issued sys1 @ [(length (tasks sys1),
                Post (js ''/correct'')
                  (CorrectReq (js ''I go school yesterday'') (js ''intermediate'') user1))])
   \<and> issued (interleaved [Deliver (chat (js ''#nivel'')), Deliver (chat (js ''3'')),
                           Complete 0 (Resolved NoReply),
                           Deliver (chat (js ''I go school yesterday''))])
       = [(0, SendText user1 preparing_notice),
          (1, SendText user1 (level_prefix @ js ''intermediate'' @ js ''*.'')),
          (0, GetHealth),
          (2, Post (js ''/correct'')
                (CorrectReq (js ''I go school yesterday'') (js ''intermediate'') user1))]"
proof -
  have a: "accepted (chat (js ''3''))"
    by (simp add: accepted_def msg_eval)
  have b: "\<not> is_audio (chat (js ''3''))"
    by (simp add: is_audio_def msg_eval)
  have c: "(body_of (chat (js ''3'')), js ''intermediate'')
        \<in> set [(js ''1'', js ''beginner''), (js ''2'', js ''basic''),
                (js ''3'', js ''intermediate''), (js ''4'', js ''advanced'')]"
    by (simp add: msg_eval)
  have u: "userPhone_of (chat x) = user1" for x
    by (simp add: msg_eval)
  have w: "warmedUp warmed" "send_out world_ok n = Resolved NoReply"
    "post_out world_ok n = Resolved NoReply" for n
    by (simp_all add: warmed_def world_ok_def)
  have nl: "\<forall>m' \<in> set [chat (js ''#ajuda'')]. \<not> (level_choice m' \<and> userPhone_of m' = userPhone_of (chat (js ''3'')))"
    by (simp add: level_choice_def msg_eval)
  have dp: "default_path (chat (js ''I go school yesterday''))"
    by (simp add: default_path_def accepted_def is_audio_def msg_eval)
  have bd: "body_of (chat (js ''I go school yesterday'')) = js ''I go school yesterday''"
    by (simp add: msg_eval)
  have nc: "\<forall>st \<in> set [Complete 0 (Resolved NoReply)].
              \<not> delivers_choice (userPhone_of (chat (js ''3''))) st"
    by (simp add: delivers_choice_def)
  have il: "foldl step_system
              (step_system (interleaved [Deliver (chat (js ''#nivel''))]) (Deliver (chat (js ''3''))))
              [Complete 0 (Resolved NoReply)]
            = interleaved [Deliver (chat (js ''#nivel'')), Deliver (chat (js ''3'')),
                           Complete 0 (Resolved NoReply)]"
    by (simp add: interleaved_def del: step_system.simps)
  note inst = level_choice_is_stored_and_used[OF a b c sends_ok_world_ok, of warmed "[]"]
  from inst have
    "\<exists>pre. exec (handleMessage (chat (js ''3''))) world_ok warmed []
        = (warmed\<lparr>userLevels := (userLevels warmed)(userPhone_of (chat (js ''3'')) \<mapsto> js ''intermediate''),
                   warmedUp := True\<rparr>,
           [] @ pre @ [(SendText (userPhone_of (chat (js ''3''))) (level_prefix @ js ''intermediate'' @ js ''*.''),
                        send_out world_ok (count is_send ([] @ pre)))],
           Returned ())
      \<and> (if warmedUp warmed then pre = [] else warmup_trace (userPhone_of (chat (js ''3''))) pre)"
    by (elim conjE)
  then have p1: "exec (handleMessage (chat (js ''3''))) world_ok warmed []
       = (warmed\<lparr>userLevels := (userLevels warmed)(user1 \<mapsto> js ''intermediate'')\<rparr>,
          [(SendText user1 (level_prefix @ js ''intermediate'' @ js ''*.''), Resolved NoReply)],
          Returned ())"
    by (auto simp: u w)
  from inst have
    "\<forall>ms m2.
       (\<forall>m' \<in> set ms. \<not> (level_choice m' \<and> userPhone_of m' = userPhone_of (chat (js ''3''))))
       \<and> default_path m2 \<and> userPhone_of m2 = userPhone_of (chat (js ''3''))
       \<longrightarrow> (\<exists>s1 tr1 s2 rest.
              run (chat (js ''3'') # ms) world_ok warmed [] = (s1, tr1)
            \<and> exec (handleMessage m2) world_ok s1 tr1
                = (s2, tr1 @ (Post (js ''/correct'')
                                (CorrectReq (body_of m2) (js ''intermediate'') (userPhone_of (chat (js ''3'')))),
                              post_out world_ok (count is_post tr1)) # rest,
                   Returned ()))"
    by (elim conjE)
  from this[rule_format, of "[chat (js ''#ajuda'')]" "chat (js ''I go school yesterday'')"] nl dp
  have p2: "\<exists>s1 tr1 s2 rest.
         run [chat (js ''3''), chat (js ''#ajuda'')] world_ok warmed [] = (s1, tr1)
       \<and> exec (handleMessage (chat (js ''I go school yesterday''))) world_ok s1 tr1
           = (s2, tr1 @ (Post (js ''/correct'')
                           (CorrectReq (js ''I go school yesterday'') (js ''intermediate'') user1),
                         Resolved NoReply) # rest,
              Returned ())"
    by (simp add: u w bd)
  from inst have
    "\<forall>sys mid m2.
       level_settled (userPhone_of (chat (js ''3''))) sys
       \<and> (\<forall>st \<in> set mid. \<not> delivers_choice (userPhone_of (chat (js ''3''))) st)
       \<and> default_path m2 \<and> userPhone_of m2 = userPhone_of (chat (js ''3''))
       \<longrightarrow> globals (step_system sys (Deliver (chat (js ''3''))))
             = (globals sys)\<lparr>userLevels := (userLevels (globals sys))
                                (userPhone_of (chat (js ''3'')) \<mapsto> js ''intermediate'')\<rparr>
         \<and> issued (step_system sys (Deliver (chat (js ''3''))))
             = issued sys @ [(length (tasks sys),
                  SendText (userPhone_of (chat (js ''3''))) (level_prefix @ js ''intermediate'' @ js ''*.''))]
         \<and> (\<exists>sys1. sys1 = foldl step_system (step_system sys (Deliver (chat (js ''3'')))) mid
              \<and> level_settled (userPhone_of (chat (js ''3''))) sys1
              \<and> userLevels (globals sys1) (userPhone_of (chat (js ''3''))) = Some (js ''intermediate'')
              \<and> issued (step_system sys1 (Deliver m2))
                  = issued sys1 @ [(length (tasks sys1),
                      Post (js ''/correct'')
                        (CorrectReq (body_of m2) (js ''intermediate'') (userPhone_of (chat (js ''3'')))))])"
    by (elim conjE)
  from this[rule_format, of "interleaved [Deliver (chat (js ''#nivel''))]"
        "[Complete 0 (Resolved NoReply)]" "chat (js ''I go school yesterday'')"]
    nivel_first_settled nc dp
  have p3: "\<exists>sys1. sys1 = interleaved [Deliver (chat (js ''#nivel'')), Deliver (chat (js ''3'')),
                                   Complete 0 (Resolved NoReply)]
        \<and> userLevels (globals sys1) user1 = Some (js ''intermediate'')
        \<and> issued (step_system sys1 (Deliver (chat (js ''I go school yesterday''))))
            = issued sys1 @ [(length (tasks sys1),
                Post (js ''/correct'')
                  (CorrectReq (js ''I go school yesterday'') (js ''intermediate'') user1))]"
    unfolding il u bd by blast
  from a b c sends_ok_world_ok p1 p2 nivel_first_settled p3 warm_overlap_trace show ?thesis
    by (intro conjI)
qed

text \<open>
  C7 as it is stated fails for a message from a group and for an audio message: with the
  body \<open>1\<close> the first is dropped and the second gets the audio notice, and neither stores a
  level. It also fails for a message that follows the choice while the choice is still in
  the warm-up: on a fresh process the choice \<open>3\<close> waits for the notice of the warm-up, the
  next message of the same user is handled meanwhile and its request carries \<open>basic\<close>.
\<close>

theorem level_choice_counterexample:
  "body_of (group_chat (js ''1'')) = js ''1''
   \<and> exec (handleMessage (group_chat (js ''1''))) world_ok warmed [] = (warmed, [], Returned ())
   \<and> body_of (audio_with (js ''1'')) = js ''1''
   \<and> exec (handleMessage (audio_with (js ''1''))) world_ok warmed []
       = (warmed, [(SendText user1 audio_notice, Resolved NoReply)], Returned ())
   \<and> userLevels warmed user1 = None
   \<and> issued (interleaved [Deliver (chat (js ''3'')),
                           Deliver (chat (js ''I go school yesterday''))])
       = [(0, SendText user1 preparing_notice),
          (1, Post (js ''/correct'')
                (CorrectReq (js ''I go school yesterday'') (js ''basic'') user1))]"
proof -
  have "body_of (group_chat (js ''1'')) = js ''1''
   \<and> exec (handleMessage (group_chat (js ''1''))) world_ok warmed [] = (warmed, [], Returned ())
   \<and> body_of (audio_with (js ''1'')) = js ''1''
   \<and> exec (handleMessage (audio_with (js ''1''))) world_ok warmed []
       = (warmed, [(SendText user1 audio_notice, Resolved NoReply)], Returned ())
   \<and> userLevels warmed user1 = None"
    by (simp add: exec_handleMessage handleMessage_try_def msg_eval dispatch_def exec_bind
          exec_warmUp_warm exec_sendText warmed_def world_ok_def)
  with cold_start_overlap show ?thesis
    by simp
qed
end
